theory Spec2Isabelle
  imports Main "HOL-Library.Sublist"
begin

section \<open>Data model of \<^verbatim>\<open>markov_cracker.py\<close>\<close>

text \<open>
  A letter is a one-character Python string, produced by \<^verbatim>\<open>chr\<close> from a code point;
  it is represented by that code point. A guess (\<^verbatim>\<open>''.join(guess)\<close>) is the list of
  its letters. Python integers are unbounded, hence \<^typ>\<open>int\<close>.
\<close>

type_synonym letter = nat

text \<open>
  The exceptions of the code: those it can raise itself, and \<open>OtherError\<close> for any other
  exception class, by its name.
\<close>

datatype error =
  KeyError | IndexError | TypeError | ValueError | OverflowError | RuntimeError
  | OtherError string

text \<open>
  An entry of \<^verbatim>\<open>following_letters\<close>: \<^verbatim>\<open>{'probability': p, 'next': n}\<close>.
\<close>

record edge =
  edge_probability :: int
  edge_next :: "letter option"

text \<open>
  An entry of \<^verbatim>\<open>markov_stats\<close>:
  \<^verbatim>\<open>{'probability', 'following_letters', 'first_child', 'last_child', 'next'}\<close>.
\<close>

record node =
  probability :: int
  following_letters :: "letter \<rightharpoonup> edge"
  first_child :: "letter option"
  last_child :: "letter option"
  node_next :: "letter option"

text \<open>
  The part of a \<^verbatim>\<open>MarkovCracker\<close> object that guess generation reads
  (its own \<^verbatim>\<open>min_level\<close>, \<^verbatim>\<open>max_level\<close>, \<^verbatim>\<open>guess\<close>, \<^verbatim>\<open>guess_level\<close> attributes are
  assigned in the constructor and never read).
\<close>

record markov_cracker =
  markov_stats :: "letter \<rightharpoonup> node"
  start_letter :: "letter option"

text \<open>Class \<^verbatim>\<open>MarkovIndex\<close>.\<close>

record markov_index =
  min_level :: int
  max_level :: int
  guess :: "letter list option"
  guess_level :: int

definition MarkovIndex_init :: "int \<Rightarrow> int \<Rightarrow> markov_index" where
  "MarkovIndex_init mn mx =
     \<lparr>min_level = mn, max_level = mx, guess = None, guess_level = 0\<rparr>"

section \<open>Loading the statistics file\<close>

text \<open>
  A line of the file is a \<^typ>\<open>string\<close>; its characters are read as the code points
  0 to 255. The Python built-ins the loader uses are modelled on such strings:
  \<^verbatim>\<open>str.strip()\<close>, \<^verbatim>\<open>sub in s\<close>, \<^verbatim>\<open>s.split(sep)\<close>, \<^verbatim>\<open>int(s)\<close> and \<^verbatim>\<open>chr(i)\<close>.
\<close>

text \<open>
  \<^verbatim>\<open>str.strip()\<close> removes the characters for which \<^verbatim>\<open>str.isspace()\<close> holds: among
  the code points below 256 these are 9 to 13, 28 to 31, 32, 133 and 160.
\<close>

definition py_isspace :: "char \<Rightarrow> bool" where
  "py_isspace c = (of_char c \<in> {9, 10, 11, 12, 13, 28, 29, 30, 31, 32, 133, 160 :: nat})"

definition strip :: "string \<Rightarrow> string" where
  "strip s = rev (dropWhile py_isspace (rev (dropWhile py_isspace s)))"

fun contains :: "string \<Rightarrow> string \<Rightarrow> bool" where
  "contains sub [] = (sub = [])"
| "contains sub (c # cs) = (prefix sub (c # cs) \<or> contains sub cs)"

function split_acc :: "string \<Rightarrow> string \<Rightarrow> string \<Rightarrow> string list" where
  "split_acc sep acc [] = [rev acc]"
| "split_acc sep acc (c # cs) =
     (if sep \<noteq> [] \<and> prefix sep (c # cs)
      then rev acc # split_acc sep [] (drop (length sep) (c # cs))
      else split_acc sep (c # acc) cs)"
  by pat_completeness auto
termination
  by (relation "measure (\<lambda>(sep, acc, s). length s)") (auto simp: neq_Nil_conv)

definition split :: "string \<Rightarrow> string \<Rightarrow> string list" where
  "split s sep = split_acc sep [] s"

text \<open>
  \<^verbatim>\<open>int(s)\<close> reads a decimal number: white space around it, an optional sign, then
  digits with single underscores between them. The white space of \<^verbatim>\<open>int\<close> is smaller
  than that of \<^verbatim>\<open>strip\<close>: the code points 9 to 13 and 32, and 133 and 160 (which \<^verbatim>\<open>int\<close>
  first turns into spaces); on 28 to 31 it raises \<^verbatim>\<open>ValueError\<close>. The interpreter's
  limit on the number of digits is not modelled.
\<close>

definition int_isspace :: "char \<Rightarrow> bool" where
  "int_isspace c = (of_char c \<in> {9, 10, 11, 12, 13, 32, 133, 160 :: nat})"

definition int_strip :: "string \<Rightarrow> string" where
  "int_strip s = rev (dropWhile int_isspace (rev (dropWhile int_isspace s)))"

definition is_digit :: "char \<Rightarrow> bool" where
  "is_digit c = (48 \<le> (of_char c :: nat) \<and> (of_char c :: nat) \<le> 57)"

fun digits_value :: "nat \<Rightarrow> bool \<Rightarrow> string \<Rightarrow> nat option" where
  "digits_value acc after_digit [] = (if after_digit then Some acc else None)"
| "digits_value acc after_digit (c # cs) =
     (if is_digit c then digits_value (10 * acc + (of_char c - 48)) True cs
      else if c = CHR ''_'' \<and> after_digit then digits_value acc False cs
      else None)"

definition py_int :: "string \<Rightarrow> error + int" where
  "py_int s =
     (case int_strip s of
        [] \<Rightarrow> Inl ValueError
      | c # cs \<Rightarrow>
          (case (if c = CHR ''-'' then digits_value 0 False cs
                 else if c = CHR ''+'' then digits_value 0 False cs
                 else digits_value 0 False (c # cs)) of
             None \<Rightarrow> Inl ValueError
           | Some n \<Rightarrow> Inr (if c = CHR ''-'' then - int n else int n)))"

text \<open>
  \<^verbatim>\<open>chr(i)\<close>: \<^verbatim>\<open>ValueError\<close> outside of the code points, \<^verbatim>\<open>OverflowError\<close> when \<open>i\<close>
  does not fit a C \<^verbatim>\<open>int\<close>.
\<close>

definition py_chr :: "int \<Rightarrow> error + letter" where
  "py_chr i =
     (if 0 \<le> i \<and> i < 1114112 then Inr (nat i)
      else if - 2147483648 \<le> i \<and> i \<le> 2147483647 then Inl ValueError
      else Inl OverflowError)"

text \<open>
  The branch \<^verbatim>\<open>if '=proba1' in line\<close> of the loop body, with the loop variable
  \<^verbatim>\<open>prev_proba1\<close>. The object is filled in place: where the branch raises, the result
  is the exception with the object as it is at that point.
\<close>

definition load_proba1 ::
  "markov_cracker \<Rightarrow> letter option \<Rightarrow> string
   \<Rightarrow> (error \<times> markov_cracker) + (markov_cracker \<times> letter option)" where
  "load_proba1 self prev_proba1 line =
     (let results = split (strip line) ''=proba1['' in
      if length results < 2 then Inl (IndexError, self)
      else
        (case py_int (butlast (results ! 1)) of
           Inl e \<Rightarrow> Inl (e, self)
         | Inr i \<Rightarrow>
             (case py_chr i of
                Inl e \<Rightarrow> Inl (e, self)
              | Inr letter \<Rightarrow>
                  (case py_int (results ! 0) of
                     Inl e \<Rightarrow> Inl (e, self)
                   | Inr prob \<Rightarrow>
                       let stats1 = (markov_stats self)(letter \<mapsto>
                             \<lparr>probability = prob, following_letters = Map.empty,
                              first_child = None, last_child = None, node_next = None\<rparr>);
                           start1 = (if start_letter self = None then Some letter
                                     else start_letter self);
                           self1 = \<lparr>markov_stats = stats1, start_letter = start1\<rparr>
                       in
                         (case prev_proba1 of
                            None \<Rightarrow> Inr (self1, Some letter)
                          | Some p \<Rightarrow>
                              (case stats1 p of
                                 None \<Rightarrow> Inl (KeyError, self1)
                               | Some nd \<Rightarrow>
                                   Inr (\<lparr>markov_stats = stats1(p \<mapsto> nd\<lparr>node_next := Some letter\<rparr>),
                                         start_letter = start1\<rparr>, Some letter)))))))"

text \<open>The branch \<^verbatim>\<open>elif '=proba2' in line\<close>.\<close>

definition load_proba2 ::
  "markov_cracker \<Rightarrow> string \<Rightarrow> (error \<times> markov_cracker) + markov_cracker" where
  "load_proba2 self line =
     (let results = split (strip line) ''=proba2['' in
      case py_int (results ! 0) of
        Inl e \<Rightarrow> Inl (e, self)
      | Inr prob \<Rightarrow>
          if length results < 2 then Inl (IndexError, self)
          else
            let results' = split (results ! 1) ''*256+'' in
            (case py_int (results' ! 0) of
               Inl e \<Rightarrow> Inl (e, self)
             | Inr i1 \<Rightarrow>
                 (case py_chr i1 of
                    Inl e \<Rightarrow> Inl (e, self)
                  | Inr letter1 \<Rightarrow>
                      if length results' < 2 then Inl (IndexError, self)
                      else
                        (case py_int (butlast (results' ! 1)) of
                           Inl e \<Rightarrow> Inl (e, self)
                         | Inr i2 \<Rightarrow>
                             (case py_chr i2 of
                                Inl e \<Rightarrow> Inl (e, self)
                              | Inr letter2 \<Rightarrow>
                                  (case markov_stats self letter1 of
                                     None \<Rightarrow> Inl (KeyError, self)
                                   | Some nd \<Rightarrow>
                                       let fl1 = (following_letters nd)(letter2 \<mapsto>
                                             \<lparr>edge_probability = prob, edge_next = None\<rparr>)
                                       in
                                         (case (case last_child nd of
                                                  None \<Rightarrow> Inr fl1
                                                | Some lc \<Rightarrow>
                                                    (case fl1 lc of
                                                       None \<Rightarrow> Inl KeyError
                                                     | Some e \<Rightarrow>
                                                         Inr (fl1(lc \<mapsto> e\<lparr>edge_next := Some letter2\<rparr>)))) of
                                            Inl e \<Rightarrow>
                                              Inl (e, self\<lparr>markov_stats := (markov_stats self)(letter1 \<mapsto>
                                                nd\<lparr>following_letters := fl1\<rparr>)\<rparr>)
                                          | Inr fl2 \<Rightarrow>
                                              Inr (self\<lparr>markov_stats := (markov_stats self)(letter1 \<mapsto>
                                                nd\<lparr>following_letters := fl2,
                                                   first_child := (if first_child nd = None
                                                                   then Some letter2
                                                                   else first_child nd),
                                                   last_child := Some letter2\<rparr>)\<rparr>))))))))"

text \<open>
  The loop \<^verbatim>\<open>for line in file\<close> of \<^verbatim>\<open>load_markov_stats\<close>. The result is the object as
  the method leaves it, with \<open>True\<close> for \<^verbatim>\<open>return True\<close> and \<open>False\<close> for \<^verbatim>\<open>return None\<close>,
  which is reached at an invalid line and, through \<^verbatim>\<open>except Exception\<close>, at every
  exception; the object then keeps what the lines before have put into it.
\<close>

fun load_lines :: "markov_cracker \<Rightarrow> letter option \<Rightarrow> string list \<Rightarrow> markov_cracker \<times> bool" where
  "load_lines self prev_proba1 [] = (self, True)"
| "load_lines self prev_proba1 (line # rest) =
     (if contains ''=proba1'' line then
        (case load_proba1 self prev_proba1 line of
           Inl (e, self') \<Rightarrow> (self', False)
         | Inr (self', prev') \<Rightarrow> load_lines self' prev' rest)
      else if contains ''=proba2'' line then
        (case load_proba2 self line of
           Inl (e, self') \<Rightarrow> (self', False)
         | Inr self' \<Rightarrow> load_lines self' prev_proba1 rest)
      else (self, False))"

text \<open>
  The file \<^verbatim>\<open>Markov/markov_stats.txt\<close> under the rule directory: it cannot be opened,
  or it has lines.
\<close>

datatype stats_file = Unreadable | Lines "string list"

definition load_markov_stats :: "markov_cracker \<Rightarrow> stats_file \<Rightarrow> markov_cracker \<times> bool" where
  "load_markov_stats self file =
     (case file of
        Unreadable \<Rightarrow> (self, False)
      | Lines ls \<Rightarrow> load_lines self None ls)"

text \<open>
  \<^verbatim>\<open>MarkovCracker.__init__\<close>; the second argument is \<open>None\<close> for
  \<^verbatim>\<open>rule_directory = None\<close>. When the load does not return \<^verbatim>\<open>True\<close> the constructor
  executes a bare \<^verbatim>\<open>raise\<close>: this raises again the exception that is being handled
  where the constructor is called (the first argument), and \<^verbatim>\<open>RuntimeError\<close> when there
  is none. A constructor that raises gives its caller no object.
\<close>

definition bare_raise :: "error option \<Rightarrow> error" where
  "bare_raise handled = (case handled of None \<Rightarrow> RuntimeError | Some e \<Rightarrow> e)"

definition MarkovCracker_init :: "error option \<Rightarrow> stats_file option \<Rightarrow> error + markov_cracker" where
  "MarkovCracker_init handled rule_directory =
     (let self = \<lparr>markov_stats = Map.empty, start_letter = None\<rparr> in
      case rule_directory of
        None \<Rightarrow> Inr self
      | Some file \<Rightarrow>
          (case load_markov_stats self file of
             (self', True) \<Rightarrow> Inr self'
           | (self', False) \<Rightarrow> Inl (bare_raise handled)))"

section \<open>Guess generation\<close>

text \<open>
  A call that raises returns \<open>Inl\<close> of the exception; the state of the index
  after an exception is not modelled. A call that does not return has the value \<open>None\<close>.
\<close>

type_synonym guess_result = "error + (letter list option \<times> markov_index)"

text \<open>\<^verbatim>\<open>dig_deeper\<close>: the loop \<^verbatim>\<open>while True\<close> is the recursion.\<close>

partial_function (option) dig_deeper ::
  "markov_cracker \<Rightarrow> markov_index \<Rightarrow> guess_result option" where
  "dig_deeper m idx =
     (case guess idx of
        None \<Rightarrow> Some (Inl TypeError)
      | Some g \<Rightarrow>
          if g = [] then Some (Inl IndexError)
          else
            let prev_letter = last g in
            (case markov_stats m prev_letter of
               None \<Rightarrow> Some (Inl KeyError)
             | Some nd \<Rightarrow>
                 (case first_child nd of
                    None \<Rightarrow> Some (Inr (None, idx))
                  | Some cur_letter \<Rightarrow>
                      (case following_letters nd cur_letter of
                         None \<Rightarrow> Some (Inl KeyError)
                       | Some e \<Rightarrow>
                           let cur_level = guess_level idx + edge_probability e in
                           if min_level idx \<le> cur_level \<and> cur_level \<le> max_level idx then
                             Some (Inr (Some (g @ [cur_letter]),
                               idx\<lparr>guess := Some (g @ [cur_letter]), guess_level := cur_level\<rparr>))
                           else if cur_level > max_level idx then Some (Inr (None, idx))
                           else dig_deeper m
                               (idx\<lparr>guess := Some (g @ [cur_letter]), guess_level := cur_level\<rparr>)))))"

text \<open>
  \<^verbatim>\<open>dig_wider_base\<close> returns the pair \<^verbatim>\<open>(more_work, ret_value)\<close>, here with the
  updated index.
\<close>

definition dig_wider_base ::
  "markov_cracker \<Rightarrow> markov_index \<Rightarrow> letter \<Rightarrow> error + (bool \<times> letter list option \<times> markov_index)" where
  "dig_wider_base m idx parent_letter =
     (case markov_stats m parent_letter of
        None \<Rightarrow> Inl KeyError
      | Some nd \<Rightarrow>
          (case node_next nd of
             None \<Rightarrow> Inr (False, None, idx\<lparr>guess := None\<rparr>)
           | Some cur_letter \<Rightarrow>
               (case markov_stats m cur_letter of
                  None \<Rightarrow> Inl KeyError
                | Some nd' \<Rightarrow>
                    let idx1 = idx\<lparr>guess_level := probability nd'\<rparr> in
                    if guess_level idx1 > max_level idx1 then
                      Inr (False, None, idx1\<lparr>guess := None\<rparr>)
                    else
                      (case guess idx1 of
                         None \<Rightarrow> Inl TypeError
                       | Some g \<Rightarrow>
                           if g = [] then Inl IndexError
                           else
                             let g' = g[length g - 1 := cur_letter];
                                 idx2 = idx1\<lparr>guess := Some g'\<rparr>
                             in
                               if min_level idx2 \<le> guess_level idx2
                                  \<and> guess_level idx2 \<le> max_level idx2
                               then Inr (False, Some g', idx2)
                               else Inr (True, None, idx2)))))"

text \<open>
  The inner loop of \<^verbatim>\<open>next_guess\<close> (``back out and try other letters at the same depth,
  or lower''). It ends by returning from \<^verbatim>\<open>next_guess\<close> or by \<^verbatim>\<open>break\<close>.
\<close>

datatype widen_exit = Return "letter list option" | Break

function widen ::
  "markov_cracker \<Rightarrow> markov_index \<Rightarrow> error + (widen_exit \<times> markov_index)" where
  "widen m idx =
     (case guess idx of
        None \<Rightarrow> Inl TypeError
      | Some g \<Rightarrow>
          if g = [] then Inl IndexError
          else
            let parent_letter = last g in
            if length g = 1 then
              (case dig_wider_base m idx parent_letter of
                 Inl e \<Rightarrow> Inl e
               | Inr (more_work, ret_value, idx') \<Rightarrow>
                   if more_work \<noteq> True then Inr (Return ret_value, idx')
                   else Inr (Break, idx'))
            else
              let prev_letter = g ! (length g - 2) in
              (case markov_stats m prev_letter of
                 None \<Rightarrow> Inl KeyError
               | Some nd \<Rightarrow>
                   (case following_letters nd parent_letter of
                      None \<Rightarrow> Inl KeyError
                    | Some e \<Rightarrow>
                        let idx1 = idx\<lparr>guess_level := guess_level idx - edge_probability e\<rparr> in
                        (case edge_next e of
                           None \<Rightarrow> widen m (idx1\<lparr>guess := Some (butlast g)\<rparr>)
                         | Some cur_letter \<Rightarrow>
                             (case following_letters nd cur_letter of
                                None \<Rightarrow> Inl KeyError
                              | Some e' \<Rightarrow>
                                  let cur_level = guess_level idx1 + edge_probability e' in
                                  if min_level idx1 \<le> cur_level \<and> cur_level \<le> max_level idx1 then
                                    Inr (Return (Some (g[length g - 1 := cur_letter])),
                                      idx1\<lparr>guess_level := cur_level,
                                           guess := Some (g[length g - 1 := cur_letter])\<rparr>)
                                  else if cur_level < max_level idx1 then
                                    Inr (Break,
                                      idx1\<lparr>guess_level := cur_level,
                                           guess := Some (g[length g - 1 := cur_letter])\<rparr>)
                                  else widen m (idx1\<lparr>guess := Some (butlast g)\<rparr>))))))"
  by pat_completeness auto
termination
  by (relation "measure (\<lambda>(m, idx). case guess idx of None \<Rightarrow> 0 | Some g \<Rightarrow> length g)")
     auto

text \<open>The outer loop of \<^verbatim>\<open>next_guess\<close>.\<close>

partial_function (option) next_guess_loop ::
  "markov_cracker \<Rightarrow> markov_index \<Rightarrow> guess_result option" where
  "next_guess_loop m idx =
     (case dig_deeper m idx of
        None \<Rightarrow> None
      | Some (Inl e) \<Rightarrow> Some (Inl e)
      | Some (Inr (Some ret_value, idx1)) \<Rightarrow> Some (Inr (Some ret_value, idx1))
      | Some (Inr (None, idx1)) \<Rightarrow>
          (case widen m idx1 of
             Inl e \<Rightarrow> Some (Inl e)
           | Inr (Return ret_value, idx2) \<Rightarrow> Some (Inr (ret_value, idx2))
           | Inr (Break, idx2) \<Rightarrow> next_guess_loop m idx2))"

definition next_guess :: "markov_cracker \<Rightarrow> markov_index \<Rightarrow> guess_result option" where
  "next_guess m idx =
     (if guess idx = None then
        (case start_letter m of
           None \<Rightarrow> Some (Inl KeyError)
         | Some s \<Rightarrow>
             (case markov_stats m s of
                None \<Rightarrow> Some (Inl KeyError)
              | Some nd \<Rightarrow>
                  let idx1 = idx\<lparr>guess := Some [s], guess_level := probability nd\<rparr> in
                  if min_level idx1 \<le> guess_level idx1 \<and> guess_level idx1 \<le> max_level idx1
                  then Some (Inr (Some [s], idx1))
                  else next_guess_loop m idx1))
      else next_guess_loop m idx)"

declare dig_deeper.simps [code]
declare next_guess_loop.simps [code]
declare widen.simps [simp del]

text \<open>
  A session: \<open>n\<close> successive calls of \<^verbatim>\<open>next_guess\<close> on the same index, with the list of
  the values returned; \<open>None\<close> when one of the calls raises or does not return.
\<close>

fun session ::
  "markov_cracker \<Rightarrow> markov_index \<Rightarrow> nat \<Rightarrow> (letter list option list \<times> markov_index) option" where
  "session m idx 0 = Some ([], idx)"
| "session m idx (Suc n) =
     (case next_guess m idx of
        Some (Inr (ret, idx1)) \<Rightarrow>
          (case session m idx1 n of
             Some (rets, idx') \<Rightarrow> Some (ret # rets, idx')
           | None \<Rightarrow> None)
      | _ \<Rightarrow> None)"

section \<open>Levels and the invariant of the index\<close>

text \<open>
  The level of a guess: the probability of its first letter plus the probabilities of the
  transitions between consecutive letters, \<open>None\<close> when a letter or a transition is not in
  the tables.
\<close>

definition start_probability :: "markov_cracker \<Rightarrow> letter \<Rightarrow> int option" where
  "start_probability m c = map_option probability (markov_stats m c)"

definition transition :: "markov_cracker \<Rightarrow> letter \<Rightarrow> letter \<Rightarrow> int option" where
  "transition m p c =
     (case markov_stats m p of
        None \<Rightarrow> None
      | Some nd \<Rightarrow> map_option edge_probability (following_letters nd c))"

fun edges_level :: "markov_cracker \<Rightarrow> letter list \<Rightarrow> int option" where
  "edges_level m [] = Some 0"
| "edges_level m [c] = Some 0"
| "edges_level m (p # c # cs) =
     (case transition m p c of
        None \<Rightarrow> None
      | Some t \<Rightarrow> map_option (\<lambda>l. t + l) (edges_level m (c # cs)))"

definition path_level :: "markov_cracker \<Rightarrow> letter list \<Rightarrow> int option" where
  "path_level m g =
     (case g of
        [] \<Rightarrow> None
      | c # cs \<Rightarrow>
          (case start_probability m c of
             None \<Rightarrow> None
           | Some s \<Rightarrow> map_option (\<lambda>l. s + l) (edges_level m g)))"

definition in_range :: "markov_index \<Rightarrow> int \<Rightarrow> bool" where
  "in_range idx l = (min_level idx \<le> l \<and> l \<le> max_level idx)"

definition same_bounds :: "markov_index \<Rightarrow> markov_index \<Rightarrow> bool" where
  "same_bounds idx idx' = (min_level idx' = min_level idx \<and> max_level idx' = max_level idx)"

definition path_ok :: "markov_cracker \<Rightarrow> int \<Rightarrow> letter list \<Rightarrow> int \<Rightarrow> bool" where
  "path_ok m mx g l =
     (path_level m g = Some l \<and>
      (\<forall>q. prefix q g \<longrightarrow> 2 \<le> length q \<longrightarrow> (\<exists>k. path_level m q = Some k \<and> k \<le> mx)))"

definition cursor_inv :: "markov_cracker \<Rightarrow> markov_index \<Rightarrow> bool" where
  "cursor_inv m idx =
     (case guess idx of
        None \<Rightarrow> True
      | Some g \<Rightarrow> path_ok m (max_level idx) g (guess_level idx))"

text \<open>What a guess-returning call establishes.\<close>

definition guess_post :: "markov_cracker \<Rightarrow> markov_index \<Rightarrow> letter list option \<Rightarrow> markov_index \<Rightarrow> bool" where
  "guess_post m idx ret idx' =
     (same_bounds idx idx' \<and> cursor_inv m idx' \<and> guess idx' = ret \<and>
      (ret \<noteq> None \<longrightarrow> in_range idx (guess_level idx')))"

section \<open>Chains, trie paths and the reference traversal\<close>

text \<open>
  The two probabilities as total functions (0 where the tables have no entry).
\<close>

definition sp :: "markov_cracker \<Rightarrow> letter \<Rightarrow> int" where
  "sp m c = (case start_probability m c of None \<Rightarrow> 0 | Some s \<Rightarrow> s)"

definition tp :: "markov_cracker \<Rightarrow> letter \<Rightarrow> letter \<Rightarrow> int" where
  "tp m p c = (case transition m p c of None \<Rightarrow> 0 | Some t \<Rightarrow> t)"

text \<open>
  A sibling chain as a list: following the links from \<open>p\<close> visits exactly the letters of
  the list, in order, and then ends.
\<close>

fun sibling_chain :: "('a \<Rightarrow> 'a option option) \<Rightarrow> 'a option \<Rightarrow> 'a list \<Rightarrow> bool" where
  "sibling_chain nxt p [] = (p = None)"
| "sibling_chain nxt p (x # xs) =
     (p = Some x \<and> (case nxt x of None \<Rightarrow> False | Some n \<Rightarrow> sibling_chain nxt n xs))"

definition top_next :: "markov_cracker \<Rightarrow> letter \<Rightarrow> letter option option" where
  "top_next m c = map_option node_next (markov_stats m c)"

definition child_next :: "node \<Rightarrow> letter \<Rightarrow> letter option option" where
  "child_next nd c = map_option edge_next (following_letters nd c)"

text \<open>
  The chains of a model are well formed for the lists \<open>tops\<close> and \<open>kids\<close> when the
  top-level links from \<^verbatim>\<open>start_letter\<close> give \<open>tops\<close>, which is not empty, and for every
  letter \<open>x\<close> of \<open>ls\<close> the links from its \<^verbatim>\<open>first_child\<close> give \<open>kids x\<close>; no letter is
  twice on a chain, and \<open>ls\<close> holds every letter of every chain.
\<close>

definition node_chain :: "markov_cracker \<Rightarrow> (letter \<Rightarrow> letter list) \<Rightarrow> letter list \<Rightarrow> letter \<Rightarrow> bool" where
  "node_chain m kids ls x =
     (case markov_stats m x of
        None \<Rightarrow> False
      | Some nd \<Rightarrow>
          list_all (\<lambda>c. c \<in> set ls) (kids x) \<and> distinct (kids x)
          \<and> sibling_chain (child_next nd) (first_child nd) (kids x))"

definition model_chains :: "markov_cracker \<Rightarrow> letter list \<Rightarrow> (letter \<Rightarrow> letter list) \<Rightarrow> letter list \<Rightarrow> bool" where
  "model_chains m tops kids ls =
     (tops \<noteq> [] \<and> list_all (\<lambda>c. c \<in> set ls) tops \<and> distinct tops
      \<and> sibling_chain (top_next m) (start_letter m) tops
      \<and> list_all (node_chain m kids ls) ls)"

text \<open>Every chain is in non-decreasing order of probability.\<close>

definition sorted_chains :: "markov_cracker \<Rightarrow> letter list \<Rightarrow> (letter \<Rightarrow> letter list) \<Rightarrow> letter list \<Rightarrow> bool" where
  "sorted_chains m tops kids ls =
     (sorted (map (sp m) tops) \<and> list_all (\<lambda>x. sorted (map (tp m x) (kids x))) ls)"

text \<open>Every transition probability on a child chain is positive.\<close>

definition positive_transitions :: "markov_cracker \<Rightarrow> (letter \<Rightarrow> letter list) \<Rightarrow> letter list \<Rightarrow> bool" where
  "positive_transitions m kids ls =
     list_all (\<lambda>x. list_all (\<lambda>c. 0 < tp m x c) (kids x)) ls"

text \<open>
  The strings reachable through the trie: a letter of the top-level chain, followed by
  letters each of which is on the child chain of the one before.
\<close>

fun walk :: "(letter \<Rightarrow> letter list) \<Rightarrow> letter \<Rightarrow> letter list \<Rightarrow> bool" where
  "walk kids p [] = True"
| "walk kids p (c # cs) = (c \<in> set (kids p) \<and> walk kids c cs)"

definition trie_path :: "letter list \<Rightarrow> (letter \<Rightarrow> letter list) \<Rightarrow> letter list \<Rightarrow> bool" where
  "trie_path tops kids g = (case g of [] \<Rightarrow> False | c # cs \<Rightarrow> c \<in> set tops \<and> walk kids c cs)"

text \<open>The part of a chain after a letter.\<close>

fun after :: "'a \<Rightarrow> 'a list \<Rightarrow> 'a list" where
  "after c [] = []"
| "after c (x # xs) = (if x = c then xs else after c xs)"

text \<open>
  The reference traversal. \<open>explore\<close> lists, for a path \<open>q\<close> of level \<open>lvl\<close> and the
  siblings \<open>cs\<close> still to try below it, the paths that the enumeration visits with their
  levels, in the order of the visits: a sibling above \<open>mx\<close> ends the list, as in the code;
  a transition that is not positive ends it too, which makes the traversal finite
  (the theorems about it assume positive transitions). \<open>top_rest\<close> does
  the same for the top-level chain, \<open>vafter\<close> lists what is still to visit after leaving
  the subtree of a path (given in reverse, last letter first), and \<open>vrest\<close> what is
  still to visit from a path on.
\<close>

function explore ::
  "markov_cracker \<Rightarrow> int \<Rightarrow> (letter \<Rightarrow> letter list) \<Rightarrow> letter list \<Rightarrow> int \<Rightarrow> letter list
   \<Rightarrow> (letter list \<times> int) list" where
  "explore m mx kids q lvl [] = []"
| "explore m mx kids q lvl (c # cs) =
     (let t = tp m (last q) c; l = lvl + t in
      if t \<le> 0 \<or> mx < l then []
      else (q @ [c], l) # explore m mx kids (q @ [c]) l (kids c) @ explore m mx kids q lvl cs)"
  by pat_completeness auto
termination
  by (relation "measures [\<lambda>(m, mx, kids, q, lvl, cs). nat (mx - lvl),
                          \<lambda>(m, mx, kids, q, lvl, cs). length cs]")
     auto

fun top_rest ::
  "markov_cracker \<Rightarrow> int \<Rightarrow> (letter \<Rightarrow> letter list) \<Rightarrow> letter list \<Rightarrow> (letter list \<times> int) list" where
  "top_rest m mx kids [] = []"
| "top_rest m mx kids (c # cs) =
     (let l = sp m c in
      if mx < l then []
      else ([c], l) # explore m mx kids [c] l (kids c) @ top_rest m mx kids cs)"

fun vafter ::
  "markov_cracker \<Rightarrow> int \<Rightarrow> letter list \<Rightarrow> (letter \<Rightarrow> letter list) \<Rightarrow> letter list \<Rightarrow> int
   \<Rightarrow> (letter list \<times> int) list" where
  "vafter m mx tops kids [] lvl = []"
| "vafter m mx tops kids [c] lvl = top_rest m mx kids (after c tops)"
| "vafter m mx tops kids (c # p # r) lvl =
     (let l' = lvl - tp m p c in
      explore m mx kids (rev (p # r)) l' (after c (kids p)) @ vafter m mx tops kids (p # r) l')"

definition vrest ::
  "markov_cracker \<Rightarrow> int \<Rightarrow> letter list \<Rightarrow> (letter \<Rightarrow> letter list) \<Rightarrow> letter list \<Rightarrow> int
   \<Rightarrow> (letter list \<times> int) list" where
  "vrest m mx tops kids rq lvl =
     explore m mx kids (rev rq) lvl (kids (hd rq)) @ vafter m mx tops kids rq lvl"

text \<open>\<open>trie_path\<close> for a path given in reverse.\<close>

fun rpath :: "letter list \<Rightarrow> (letter \<Rightarrow> letter list) \<Rightarrow> letter list \<Rightarrow> bool" where
  "rpath tops kids [] = False"
| "rpath tops kids [c] = (c \<in> set tops)"
| "rpath tops kids (c # p # r) = (c \<in> set (kids p) \<and> rpath tops kids (p # r))"

declare explore.simps [simp del]

text \<open>The index at a path (given in reverse) with a level, and the exhausted index.\<close>

definition at :: "int \<Rightarrow> int \<Rightarrow> letter list \<Rightarrow> int \<Rightarrow> markov_index" where
  "at mn mx rq l = \<lparr>min_level = mn, max_level = mx, guess = Some (rev rq), guess_level = l\<rparr>"

definition exhausted :: "int \<Rightarrow> int \<Rightarrow> int \<Rightarrow> markov_index" where
  "exhausted mn mx l = \<lparr>min_level = mn, max_level = mx, guess = None, guess_level = l\<rparr>"

text \<open>The guesses of a list of visits: the paths whose level reaches the minimum.\<close>

definition yield :: "int \<Rightarrow> (letter list \<times> int) list \<Rightarrow> letter list list" where
  "yield mn xs = map fst (filter (\<lambda>x. mn \<le> snd x) xs)"

text \<open>The sum of the transition probabilities along a walk.\<close>

fun wsum :: "markov_cracker \<Rightarrow> letter \<Rightarrow> letter list \<Rightarrow> int" where
  "wsum m p [] = 0"
| "wsum m p (c # s) = tp m p c + wsum m c s"

section \<open>Statistics files used as examples\<close>

text \<open>The tables that \<^verbatim>\<open>MarkovCracker(rule_directory)\<close> builds from the lines of a file.\<close>

definition loaded :: "string list \<Rightarrow> markov_cracker" where
  "loaded ls =
     (case MarkovCracker_init None (Some (Lines ls)) of
        Inr self \<Rightarrow> self
      | Inl e \<Rightarrow> \<lparr>markov_stats = Map.empty, start_letter = None\<rparr>)"

text \<open>
  Unigrams \<open>a = 0\<close>, \<open>b = 5\<close>, then the bigrams \<open>a \<rightarrow> a = 0\<close> and \<open>a \<rightarrow> b = 3\<close>
  (\<open>a\<close> is 97, \<open>b\<close> is 98).
\<close>

definition scenario_lines :: "string list" where
  "scenario_lines =
     [''0=proba1[97]'' @ [CHR 0x0A], ''5=proba1[98]'' @ [CHR 0x0A],
      ''0=proba2[97*256+97]'' @ [CHR 0x0A], ''3=proba2[97*256+98]'' @ [CHR 0x0A]]"

definition scenario :: markov_cracker where
  "scenario = loaded scenario_lines"

text \<open>One unigram, \<open>a = 0\<close>.\<close>

definition single_lines :: "string list" where
  "single_lines = [''0=proba1[97]'' @ [CHR 0x0A]]"

text \<open>Unigrams \<open>a = 0\<close>, \<open>b = 5\<close>, \<open>c = 1\<close>, in this order.\<close>

definition unsorted_lines :: "string list" where
  "unsorted_lines =
     [''0=proba1[97]'' @ [CHR 0x0A], ''5=proba1[98]'' @ [CHR 0x0A], ''1=proba1[99]'' @ [CHR 0x0A]]"

text \<open>
  Unigrams \<open>a = 0\<close>, \<open>b = 9\<close>, \<open>c = 9\<close>, \<open>d = 9\<close> and the bigrams \<open>a \<rightarrow> b = 1\<close>,
  \<open>a \<rightarrow> c = 9\<close>, \<open>a \<rightarrow> d = 2\<close>, in this order.
\<close>

definition siblings_lines :: "string list" where
  "siblings_lines =
     [''0=proba1[97]'' @ [CHR 0x0A], ''9=proba1[98]'' @ [CHR 0x0A],
      ''9=proba1[99]'' @ [CHR 0x0A], ''9=proba1[100]'' @ [CHR 0x0A],
      ''1=proba2[97*256+98]'' @ [CHR 0x0A], ''9=proba2[97*256+99]'' @ [CHR 0x0A],
      ''2=proba2[97*256+100]'' @ [CHR 0x0A]]"

text \<open>
  Unigrams \<open>a = 1\<close>, \<open>b = 2\<close> and the bigrams \<open>a \<rightarrow> a = 1\<close>, \<open>a \<rightarrow> b = 2\<close>,
  \<open>b \<rightarrow> a = 1\<close>: every chain is sorted and every transition is positive.
\<close>

definition sorted_lines :: "string list" where
  "sorted_lines =
     [''1=proba1[97]'' @ [CHR 0x0A], ''2=proba1[98]'' @ [CHR 0x0A],
      ''1=proba2[97*256+97]'' @ [CHR 0x0A], ''2=proba2[97*256+98]'' @ [CHR 0x0A],
      ''1=proba2[98*256+97]'' @ [CHR 0x0A]]"

definition sorted_kids :: "letter \<Rightarrow> letter list" where
  "sorted_kids x = (if x = 97 then [97, 98] else if x = 98 then [97] else [])"


section \<open>Properties of levels\<close>

lemma edges_level_snoc:
  "g \<noteq> [] \<Longrightarrow> edges_level m (g @ [c]) =
     (case edges_level m g of
        None \<Rightarrow> None
      | Some l \<Rightarrow> map_option (\<lambda>t. l + t) (transition m (last g) c))"
proof (induction m g rule: edges_level.induct)
  case (1 m)
  then show ?case by simp
next
  case (2 m v)
  then show ?case by (cases "transition m v c") simp_all
next
  case (3 m p d cs)
  then show ?case
    by (cases "transition m p d"; cases "edges_level m (d # cs)";
        cases "transition m (last (d # cs)) c")
      simp_all
qed

lemma path_level_snoc:
  "g \<noteq> [] \<Longrightarrow> path_level m (g @ [c]) =
     (case path_level m g of
        None \<Rightarrow> None
      | Some l \<Rightarrow> map_option (\<lambda>t. l + t) (transition m (last g) c))"
proof (cases g)
  case Nil
  assume "g \<noteq> []"
  with Nil show ?thesis by simp
next
  case (Cons a list)
  have e: "edges_level m (a # list @ [c]) =
     (case edges_level m (a # list) of
        None \<Rightarrow> None
      | Some l \<Rightarrow> map_option (\<lambda>t. l + t) (transition m (last (a # list)) c))"
    using edges_level_snoc [of "a # list" m c] by simp
  show ?thesis
    unfolding Cons path_level_def
    by (cases "start_probability m a"; cases "edges_level m (a # list)";
        cases "transition m (last (a # list)) c")
       (simp_all add: e del: edges_level.simps last.simps)
qed

lemma path_level_single: "path_level m [c] = start_probability m c"
  by (cases "start_probability m c") (simp_all add: path_level_def)

lemma path_level_Nil: "path_level m [] = None"
  by (simp add: path_level_def)

lemma list_update_last: "g \<noteq> [] \<Longrightarrow> g[length g - 1 := c] = butlast g @ [c]"
  by (induction g rule: rev_induct) simp_all

lemma widen_base:
  "guess idx = Some [p] \<Longrightarrow>
   widen m idx =
     (case dig_wider_base m idx p of
        Inl e \<Rightarrow> Inl e
      | Inr (more_work, ret_value, idx') \<Rightarrow>
          if more_work then Inr (Break, idx') else Inr (Return ret_value, idx'))"
  by (subst widen.simps) (simp split: sum.splits)

lemma widen_no_sibling:
  assumes "guess idx = Some (q @ [prev, parent])"
    and "markov_stats m prev = Some nd"
    and "following_letters nd parent = Some e"
    and "edge_next e = None"
  shows "widen m idx =
     widen m (idx\<lparr>guess_level := guess_level idx - edge_probability e,
                   guess := Some (q @ [prev])\<rparr>)"
  using assms
  by (subst widen.simps) (simp add: Let_def nth_append butlast_append)

lemma widen_sibling:
  assumes "guess idx = Some (q @ [prev, parent])"
    and "markov_stats m prev = Some nd"
    and "following_letters nd parent = Some e"
    and "edge_next e = Some cur"
    and "following_letters nd cur = Some e'"
  shows "widen m idx =
     (let cur_level = guess_level idx - edge_probability e + edge_probability e' in
      if min_level idx \<le> cur_level \<and> cur_level \<le> max_level idx then
        Inr (Return (Some (q @ [prev, cur])),
             idx\<lparr>guess_level := cur_level, guess := Some (q @ [prev, cur])\<rparr>)
      else if cur_level < max_level idx then
        Inr (Break, idx\<lparr>guess_level := cur_level, guess := Some (q @ [prev, cur])\<rparr>)
      else widen m (idx\<lparr>guess_level := guess_level idx - edge_probability e,
                         guess := Some (q @ [prev])\<rparr>))"
  using assms
  by (subst widen.simps) (simp add: Let_def nth_append butlast_append list_update_append)

lemma transition_lookup:
  "markov_stats m p = Some nd \<Longrightarrow> following_letters nd c = Some e \<Longrightarrow>
   transition m p c = Some (edge_probability e)"
  by (simp add: transition_def)

lemma path_ok_single:
  "markov_stats m c = Some nd \<Longrightarrow> path_ok m mx [c] (probability nd)"
  by (auto simp: path_ok_def path_level_single start_probability_def prefix_Cons)

lemma path_ok_not_Nil: "path_ok m mx g l \<Longrightarrow> g \<noteq> []"
  by (auto simp: path_ok_def path_level_Nil)

lemma path_ok_snoc:
  assumes "path_ok m mx g l" "markov_stats m (last g) = Some nd"
    "following_letters nd c = Some e" "l + edge_probability e \<le> mx"
  shows "path_ok m mx (g @ [c]) (l + edge_probability e)"
proof -
  have g: "g \<noteq> []" using assms(1) by (rule path_ok_not_Nil)
  have lv: "path_level m (g @ [c]) = Some (l + edge_probability e)"
    using assms(1-3) g by (simp add: path_ok_def path_level_snoc transition_lookup)
  show ?thesis
    unfolding path_ok_def
  proof (intro conjI allI impI)
    show "path_level m (g @ [c]) = Some (l + edge_probability e)" by (rule lv)
  next
    fix q assume q: "prefix q (g @ [c])" "2 \<le> length q"
    then consider "prefix q g" | "q = g @ [c]" by auto
    then show "\<exists>k. path_level m q = Some k \<and> k \<le> mx"
    proof cases
      case 1
      with assms(1) q(2) show ?thesis by (simp add: path_ok_def)
    next
      case 2
      with lv assms(4) show ?thesis by simp
    qed
  qed
qed

lemma path_ok_butlast:
  assumes "path_ok m mx (g @ [c]) l" "g \<noteq> []" "markov_stats m (last g) = Some nd"
    "following_letters nd c = Some e"
  shows "path_ok m mx g (l - edge_probability e)"
proof -
  from assms have "path_level m g = Some (l - edge_probability e)"
    by (cases "path_level m g") (simp_all add: path_ok_def path_level_snoc transition_lookup)
  moreover have "\<And>q. prefix q g \<Longrightarrow> prefix q (g @ [c])" by simp
  ultimately show ?thesis
    using assms(1) unfolding path_ok_def by blast
qed

section \<open>The invariant is kept\<close>

lemma dig_deeper_inv:
  assumes "dig_deeper m idx = Some r"
  shows "\<forall>ret idx'. r = Inr (ret, idx') \<longrightarrow> cursor_inv m idx \<longrightarrow>
      cursor_inv m idx' \<and> same_bounds idx idx' \<and> guess idx' \<noteq> None \<and>
      (\<forall>g. ret = Some g \<longrightarrow> guess idx' = Some g \<and> in_range idx (guess_level idx'))"
  using assms
proof (induction m idx r rule: dig_deeper.raw_induct [rotated 1, consumes 1, case_names step])
  case (step dd m idx r)
  show ?case
  proof (intro allI impI)
    fix ret idx'
    assume r: "r = Inr (ret, idx')" and ok: "cursor_inv m idx"
    from step(2) r obtain g where g: "guess idx = Some g" "g \<noteq> []"
      by (auto split: option.splits if_splits)
    from step(2) r g obtain nd where nd: "markov_stats m (last g) = Some nd"
      by (auto split: option.splits if_splits simp: Let_def)
    from ok g have pok: "path_ok m (max_level idx) g (guess_level idx)"
      by (simp add: cursor_inv_def)
    show "cursor_inv m idx' \<and> same_bounds idx idx' \<and> guess idx' \<noteq> None \<and>
      (\<forall>g. ret = Some g \<longrightarrow> guess idx' = Some g \<and> in_range idx (guess_level idx'))"
    proof (cases "first_child nd")
      case None
      with step(2) r g nd ok show ?thesis
        by (simp add: same_bounds_def)
    next
      case (Some c)
      with step(2) r g nd obtain e where e: "following_letters nd c = Some e"
        by (auto split: option.splits if_splits simp: Let_def)
      let ?lvl = "guess_level idx + edge_probability e"
      let ?idx1 = "idx\<lparr>guess := Some (g @ [c]), guess_level := ?lvl\<rparr>"
      have ok1: "cursor_inv m ?idx1" if "?lvl \<le> max_level idx"
        using path_ok_snoc [OF pok nd e that] by (simp add: cursor_inv_def)
      have body: "(if min_level idx \<le> ?lvl \<and> ?lvl \<le> max_level idx
                   then Some (Inr (Some (g @ [c]), ?idx1))
                   else if max_level idx < ?lvl then Some (Inr (None, idx))
                   else dd m ?idx1) = Some r"
        using step(2) g nd Some e by (simp add: Let_def)
      consider (ret) "in_range idx ?lvl" "r = Inr (Some (g @ [c]), ?idx1)"
        | (high) "r = Inr (None, idx)"
        | (rec) "?lvl \<le> max_level idx" "dd m ?idx1 = Some r"
      proof (cases "min_level idx \<le> ?lvl \<and> ?lvl \<le> max_level idx")
        case True
        with body have "r = Inr (Some (g @ [c]), ?idx1)" by simp
        with True that(1) show ?thesis by (simp add: in_range_def)
      next
        case False
        show ?thesis
        proof (cases "max_level idx < ?lvl")
          case True
          with False body have "r = Inr (None, idx)" by simp
          with that(2) show ?thesis .
        next
          case nh: False
          with False body have "dd m ?idx1 = Some r" by simp
          with that(3) nh show ?thesis by simp
        qed
      qed
      then show ?thesis
      proof cases
        case ret
        from ret(2) r have "ret = Some (g @ [c])" "idx' = ?idx1" by simp_all
        with ok1 ret(1) show ?thesis by (simp add: same_bounds_def in_range_def)
      next
        case high
        with r have "ret = None" "idx' = idx" by simp_all
        with ok g show ?thesis by (simp add: same_bounds_def)
      next
        case rec
        from step(1) [OF rec(2)] r ok1 [OF rec(1)]
        have "cursor_inv m idx' \<and> same_bounds ?idx1 idx' \<and> guess idx' \<noteq> None \<and>
          (\<forall>g. ret = Some g \<longrightarrow> guess idx' = Some g \<and> in_range ?idx1 (guess_level idx'))"
          by blast
        then show ?thesis
          by (simp add: same_bounds_def in_range_def)
      qed
    qed
  qed
qed


lemma dig_wider_base_inv:
  assumes "dig_wider_base m idx p = Inr (more_work, ret, idx')"
    and "guess idx = Some [p]"
  shows "same_bounds idx idx' \<and> cursor_inv m idx' \<and>
     (if more_work then guess idx' \<noteq> None else guess_post m idx ret idx')"
proof -
  from assms(1) obtain nd where nd: "markov_stats m p = Some nd"
    by (auto simp: dig_wider_base_def split: option.splits)
  show ?thesis
  proof (cases "node_next nd")
    case None
    with assms nd show ?thesis
      by (auto simp: dig_wider_base_def same_bounds_def cursor_inv_def guess_post_def)
  next
    case (Some c)
    with assms(1) nd obtain nd' where nd': "markov_stats m c = Some nd'"
      by (auto simp: dig_wider_base_def split: option.splits)
    show ?thesis
    proof (cases "probability nd' > max_level idx")
      case True
      with assms nd Some nd' show ?thesis
        by (auto simp: dig_wider_base_def same_bounds_def cursor_inv_def guess_post_def)
    next
      case False
      have "path_ok m (max_level idx) [c] (probability nd')"
        using nd' by (rule path_ok_single)
      with False assms nd Some nd' show ?thesis
        by (auto simp: dig_wider_base_def same_bounds_def cursor_inv_def guess_post_def
            in_range_def Let_def split: if_splits)
    qed
  qed
qed

lemma widen_inv_aux:
  "length g = n \<Longrightarrow> guess idx = Some g \<Longrightarrow> cursor_inv m idx \<Longrightarrow>
   widen m idx = Inr (x, idx') \<Longrightarrow>
   same_bounds idx idx' \<and> cursor_inv m idx' \<and>
   (case x of Break \<Rightarrow> guess idx' \<noteq> None | Return ret \<Rightarrow> guess_post m idx ret idx')"
proof (induction n arbitrary: g idx)
  case 0
  then show ?case by (simp add: widen.simps)
next
  case (Suc n)
  show ?case
  proof (cases "length g = 1")
    case True
    then obtain p where p: "g = [p]" by (cases g) auto
    from Suc.prems(4) have
      "(case dig_wider_base m idx p of
          Inl e \<Rightarrow> Inl e
        | Inr (more_work, ret_value, idx') \<Rightarrow>
            if more_work then Inr (Break, idx') else Inr (Return ret_value, idx')) = Inr (x, idx')"
      using widen_base [of idx p m] Suc.prems(2) p by simp
    then obtain mw rv where d: "dig_wider_base m idx p = Inr (mw, rv, idx')"
      and x: "x = (if mw then Break else Return rv)"
      by (auto split: sum.splits if_splits)
    from dig_wider_base_inv [OF d] Suc.prems(2) p x show ?thesis
      by (cases mw) simp_all
  next
    case False
    with Suc.prems(1) obtain q prev parent where g: "g = q @ [prev, parent]"
      by (cases g rule: rev_cases; cases "butlast g" rule: rev_cases) auto
    from Suc.prems(3) Suc.prems(2) have pok: "path_ok m (max_level idx) g (guess_level idx)"
      by (simp add: cursor_inv_def)
    from Suc.prems(4) Suc.prems(2) g obtain nd e where
      nd: "markov_stats m prev = Some nd" and e: "following_letters nd parent = Some e"
      by (subst (asm) widen.simps)
         (auto simp: Let_def nth_append split: option.splits)
    let ?idxp = "idx\<lparr>guess_level := guess_level idx - edge_probability e,
                      guess := Some (q @ [prev])\<rparr>"
    have pokp: "path_ok m (max_level idx) (q @ [prev]) (guess_level idx - edge_probability e)"
      using path_ok_butlast [of m "max_level idx" "q @ [prev]" parent "guess_level idx" nd e]
        pok g nd e by simp
    have invp: "cursor_inv m ?idxp"
      using pokp by (simp add: cursor_inv_def)
    have lenp: "length (q @ [prev]) = n"
      using Suc.prems(1) g by simp
    have IH: "widen m ?idxp = Inr (x, idx') \<Longrightarrow> ?thesis"
    proof -
      assume w: "widen m ?idxp = Inr (x, idx')"
      have "same_bounds ?idxp idx' \<and> cursor_inv m idx' \<and>
        (case x of Break \<Rightarrow> guess idx' \<noteq> None | Return ret \<Rightarrow> guess_post m ?idxp ret idx')"
        using Suc.IH [OF lenp _ invp w] by simp
      then show ?thesis
        by (simp add: same_bounds_def guess_post_def in_range_def split: widen_exit.splits)
    qed
    show ?thesis
    proof (cases "edge_next e")
      case None
      from Suc.prems(4) widen_no_sibling [OF _ nd e None, of idx q] Suc.prems(2) g
      have "widen m ?idxp = Inr (x, idx')" by simp
      then show ?thesis by (rule IH)
    next
      case (Some cur)
      from Suc.prems(4) Suc.prems(2) g nd e Some obtain e' where
        e': "following_letters nd cur = Some e'"
        by (subst (asm) widen.simps)
           (auto simp: Let_def nth_append split: option.splits)
      let ?lvl = "guess_level idx - edge_probability e + edge_probability e'"
      let ?idxc = "idx\<lparr>guess_level := ?lvl, guess := Some (q @ [prev, cur])\<rparr>"
      have invc: "cursor_inv m ?idxc" if "?lvl \<le> max_level idx"
        using path_ok_snoc [OF pokp _ e' that] nd by (simp add: cursor_inv_def)
      have body: "(if min_level idx \<le> ?lvl \<and> ?lvl \<le> max_level idx then
                     Inr (Return (Some (q @ [prev, cur])), ?idxc)
                   else if ?lvl < max_level idx then Inr (Break, ?idxc)
                   else widen m ?idxp) = Inr (x, idx')"
        using Suc.prems(4) widen_sibling [OF _ nd e Some e', of idx q] Suc.prems(2) g
        by (simp add: Let_def)
      show ?thesis
      proof (cases "min_level idx \<le> ?lvl \<and> ?lvl \<le> max_level idx")
        case True
        with body have "x = Return (Some (q @ [prev, cur]))" "idx' = ?idxc" by simp_all
        with invc True show ?thesis
          by (simp add: same_bounds_def guess_post_def in_range_def)
      next
        case nr: False
        show ?thesis
        proof (cases "?lvl < max_level idx")
          case True
          with nr body have "x = Break" "idx' = ?idxc" by simp_all
          with invc True show ?thesis
            by (simp add: same_bounds_def)
        next
          case False
          from body have "widen m ?idxp = Inr (x, idx')"
            unfolding if_not_P [OF nr] if_not_P [OF False] .
          then show ?thesis by (rule IH)
        qed
      qed
    qed
  qed
qed

lemma widen_inv:
  assumes "widen m idx = Inr (x, idx')" "cursor_inv m idx"
  shows "same_bounds idx idx' \<and> cursor_inv m idx' \<and>
   (case x of Break \<Rightarrow> guess idx' \<noteq> None | Return ret \<Rightarrow> guess_post m idx ret idx')"
proof (cases "guess idx")
  case None
  with assms(1) show ?thesis by (simp add: widen.simps)
next
  case (Some g)
  from widen_inv_aux [OF refl Some assms(2) assms(1)] show ?thesis .
qed

lemma guess_post_trans:
  "same_bounds idx idx1 \<Longrightarrow> guess_post m idx1 ret idx' \<Longrightarrow> guess_post m idx ret idx'"
  by (simp add: guess_post_def same_bounds_def in_range_def)

lemma next_guess_loop_inv:
  assumes "next_guess_loop m idx = Some r"
  shows "\<forall>ret idx'. r = Inr (ret, idx') \<longrightarrow> cursor_inv m idx \<longrightarrow> guess_post m idx ret idx'"
  using assms
proof (induction m idx r rule: next_guess_loop.raw_induct [rotated 1, consumes 1, case_names step])
  case (step lp m idx r)
  show ?case
  proof (intro allI impI)
    fix ret idx'
    assume r: "r = Inr (ret, idx')" and inv: "cursor_inv m idx"
    from step(2) r obtain dret idx1 where dd: "dig_deeper m idx = Some (Inr (dret, idx1))"
      by (auto split: option.splits sum.splits)
    from dig_deeper_inv [OF dd] inv
    have d: "cursor_inv m idx1" "same_bounds idx idx1" "guess idx1 \<noteq> None"
      "\<forall>g. dret = Some g \<longrightarrow> guess idx1 = Some g \<and> in_range idx (guess_level idx1)"
      by blast+
    show "guess_post m idx ret idx'"
    proof (cases dret)
      case (Some g)
      with step(2) dd r have "ret = Some g" "idx' = idx1" by simp_all
      with d Some show ?thesis by (simp add: guess_post_def)
    next
      case None
      with step(2) dd r obtain x idx2 where w: "widen m idx1 = Inr (x, idx2)"
        and rest: "(case x of Return rv \<Rightarrow> Some (Inr (rv, idx2)) | Break \<Rightarrow> lp m idx2) = Some r"
        by (auto split: sum.splits widen_exit.splits)
      from widen_inv [OF w d(1)]
      have wi: "same_bounds idx1 idx2" "cursor_inv m idx2"
        "case x of Break \<Rightarrow> guess idx2 \<noteq> None | Return rv \<Rightarrow> guess_post m idx1 rv idx2"
        by blast+
      show ?thesis
      proof (cases x)
        case (Return rv)
        with rest r have "ret = rv" "idx' = idx2" by simp_all
        with wi(3) Return d(2) show ?thesis by (simp add: guess_post_trans)
      next
        case Break
        with rest have "lp m idx2 = Some r" by simp
        from step(1) [OF this] r wi(2) have "guess_post m idx2 ret idx'" by blast
        with wi(1) d(2) show ?thesis
          by (simp add: guess_post_def same_bounds_def in_range_def)
      qed
    qed
  qed
qed

lemma next_guess_inv:
  assumes "next_guess m idx = Some (Inr (ret, idx'))" "cursor_inv m idx"
  shows "guess_post m idx ret idx'"
proof (cases "guess idx")
  case (Some g)
  with assms(1) have "next_guess_loop m idx = Some (Inr (ret, idx'))"
    by (simp add: next_guess_def)
  from next_guess_loop_inv [OF this] assms(2) show ?thesis by blast
next
  case None
  with assms(1) obtain s nd where s: "start_letter m = Some s" "markov_stats m s = Some nd"
    by (auto simp: next_guess_def split: option.splits)
  let ?idx1 = "idx\<lparr>guess := Some [s], guess_level := probability nd\<rparr>"
  have inv1: "cursor_inv m ?idx1"
    using path_ok_single [OF s(2)] by (simp add: cursor_inv_def)
  show ?thesis
  proof (cases "min_level idx \<le> probability nd \<and> probability nd \<le> max_level idx")
    case True
    with assms(1) None s have "ret = Some [s]" "idx' = ?idx1"
      by (auto simp: next_guess_def)
    with inv1 True show ?thesis
      by (simp add: guess_post_def same_bounds_def in_range_def)
  next
    case False
    with assms(1) None s have "next_guess_loop m ?idx1 = Some (Inr (ret, idx'))"
      by (simp add: next_guess_def)
    from next_guess_loop_inv [OF this] inv1 have "guess_post m ?idx1 ret idx'" by blast
    then show ?thesis
      by (simp add: guess_post_def same_bounds_def in_range_def)
  qed
qed

lemma session_inv:
  "session m idx n = Some (rets, idx') \<Longrightarrow> cursor_inv m idx \<Longrightarrow>
   same_bounds idx idx' \<and> cursor_inv m idx' \<and>
   (\<forall>g. Some g \<in> set rets \<longrightarrow>
      (\<exists>l. path_ok m (max_level idx) g l \<and> in_range idx l))"
proof (induction n arbitrary: idx rets)
  case 0
  then show ?case by (simp add: same_bounds_def)
next
  case (Suc n)
  from Suc.prems(1) obtain ret idx1 rets1 where
    ng: "next_guess m idx = Some (Inr (ret, idx1))"
    and ss: "session m idx1 n = Some (rets1, idx')" and rets: "rets = ret # rets1"
    by (auto split: option.splits sum.splits)
  from next_guess_inv [OF ng Suc.prems(2)] have gp: "guess_post m idx ret idx1" .
  then have inv1: "cursor_inv m idx1" and sb: "same_bounds idx idx1"
    by (simp_all add: guess_post_def)
  from Suc.IH [OF ss inv1] have ih: "same_bounds idx1 idx'" "cursor_inv m idx'"
    "\<forall>g. Some g \<in> set rets1 \<longrightarrow> (\<exists>l. path_ok m (max_level idx1) g l \<and> in_range idx1 l)"
    by blast+
  have "\<exists>l. path_ok m (max_level idx) g l \<and> in_range idx l" if "ret = Some g" for g
    using gp that by (auto simp: guess_post_def cursor_inv_def same_bounds_def)
  with ih sb rets show ?case
    by (auto simp: same_bounds_def in_range_def)
qed

lemma cursor_inv_init: "cursor_inv m (MarkovIndex_init mn mx)"
  by (simp add: cursor_inv_def MarkovIndex_init_def)

section \<open>The enumeration follows the reference traversal\<close>

lemma chain_first:
  "sibling_chain nxt p xs \<Longrightarrow> p = (case xs of [] \<Rightarrow> None | x # _ \<Rightarrow> Some x)"
  by (cases xs) simp_all

lemma chain_next:
  "sibling_chain nxt p xs \<Longrightarrow> distinct xs \<Longrightarrow> c \<in> set xs \<Longrightarrow>
   nxt c = Some (case after c xs of [] \<Rightarrow> None | s # _ \<Rightarrow> Some s)"
proof (induction xs arbitrary: p)
  case Nil
  then show ?case by simp
next
  case (Cons x xs)
  from Cons.prems(1) obtain n where n: "nxt x = Some n" "sibling_chain nxt n xs"
    by (auto split: option.splits)
  show ?case
  proof (cases "x = c")
    case True
    with n chain_first [OF n(2)] show ?thesis by simp
  next
    case False
    with Cons.prems have "c \<in> set xs" "distinct xs" by simp_all
    from Cons.IH [OF n(2) this(2) this(1)] False show ?thesis by simp
  qed
qed

lemma after_Cons_self: "after c (c # xs) = xs"
  by simp

lemma set_after: "set (after c xs) \<subseteq> set xs"
  by (induction xs) auto

lemma distinct_after: "distinct xs \<Longrightarrow> distinct (after c xs)"
  by (induction xs) auto

lemma sorted_after: "sorted (map f xs) \<Longrightarrow> sorted (map f (after c xs))"
  by (induction xs) auto

lemma after_split: "c \<in> set xs \<Longrightarrow> \<exists>pre. xs = pre @ c # after c xs"
proof (induction xs)
  case Nil
  then show ?case by simp
next
  case (Cons x xs)
  show ?case
  proof (cases "x = c")
    case True
    then have "x # xs = [] @ c # after c (x # xs)" by simp
    then show ?thesis by blast
  next
    case False
    with Cons obtain pre where "xs = pre @ c # after c xs" by auto
    with False have "x # xs = (x # pre) @ c # after c (x # xs)" by simp
    then show ?thesis by blast
  qed
qed

lemma after_notin: "distinct xs \<Longrightarrow> c \<notin> set (after c xs)"
  by (induction xs) (auto dest: subsetD [OF set_after])

text \<open>What well-formed chains give for the look-ups of the code.\<close>

lemma chains_top:
  assumes "model_chains m tops kids ls" "c \<in> set tops"
  shows "\<exists>nd. markov_stats m c = Some nd \<and> probability nd = sp m c
           \<and> node_next nd = (case after c tops of [] \<Rightarrow> None | s # _ \<Rightarrow> Some s)"
proof -
  from assms(1) have ch: "sibling_chain (top_next m) (start_letter m) tops" and d: "distinct tops"
    by (simp_all add: model_chains_def)
  from chain_next [OF ch d assms(2)] show ?thesis
    by (auto simp: top_next_def sp_def start_probability_def)
qed

lemma chains_start:
  assumes "model_chains m tops kids ls"
  shows "\<exists>s rest. tops = s # rest \<and> start_letter m = Some s"
proof -
  from assms have ch: "sibling_chain (top_next m) (start_letter m) tops" and ne: "tops \<noteq> []"
    by (simp_all add: model_chains_def)
  from chain_first [OF ch] ne show ?thesis by (cases tops) simp_all
qed

lemma chains_tops_ls: "model_chains m tops kids ls \<Longrightarrow> set tops \<subseteq> set ls"
  by (auto simp: model_chains_def list_all_iff)

lemma chains_node:
  assumes "model_chains m tops kids ls" "p \<in> set ls"
  shows "\<exists>nd. markov_stats m p = Some nd
           \<and> first_child nd = (case kids p of [] \<Rightarrow> None | c # _ \<Rightarrow> Some c)
           \<and> set (kids p) \<subseteq> set ls \<and> distinct (kids p)
           \<and> (\<forall>c \<in> set (kids p). \<exists>e. following_letters nd c = Some e
                 \<and> edge_probability e = tp m p c
                 \<and> edge_next e = (case after c (kids p) of [] \<Rightarrow> None | s # _ \<Rightarrow> Some s))"
proof -
  from assms have "node_chain m kids ls p"
    by (simp add: model_chains_def list_all_iff)
  then obtain nd where nd: "markov_stats m p = Some nd"
    and sub: "set (kids p) \<subseteq> set ls" and d: "distinct (kids p)"
    and ch: "sibling_chain (child_next nd) (first_child nd) (kids p)"
    by (auto simp: node_chain_def list_all_iff split: option.splits)
  have "\<exists>e. following_letters nd c = Some e \<and> edge_probability e = tp m p c
          \<and> edge_next e = (case after c (kids p) of [] \<Rightarrow> None | s # _ \<Rightarrow> Some s)"
    if "c \<in> set (kids p)" for c
    using chain_next [OF ch d that] nd
    by (auto simp: child_next_def tp_def transition_def)
  with nd sub d chain_first [OF ch] show ?thesis by blast
qed

lemma rpath_ls: "model_chains m tops kids ls \<Longrightarrow> rpath tops kids rq \<Longrightarrow> set rq \<subseteq> set ls"
proof (induction tops kids rq rule: rpath.induct)
  case (1 tops kids)
  then show ?case by simp
next
  case (2 tops kids c)
  then show ?case using chains_tops_ls [of m tops kids ls] by auto
next
  case (3 tops kids c p r)
  then have "p \<in> set ls" by simp
  from chains_node [OF "3.prems"(1) this] 3 show ?case by auto
qed

lemma rpath_snoc:
  "rpath tops kids (p # r) \<Longrightarrow> c \<in> set (kids p) \<Longrightarrow> rpath tops kids (c # p # r)"
  by simp

lemma dig_deeper_leaf:
  assumes "guess idx = Some g" "g \<noteq> []" "markov_stats m (last g) = Some nd"
    "first_child nd = None"
  shows "dig_deeper m idx = Some (Inr (None, idx))"
  using assms by (subst dig_deeper.simps) simp

lemma dig_deeper_child:
  assumes "guess idx = Some g" "g \<noteq> []" "markov_stats m (last g) = Some nd"
    "first_child nd = Some c" "following_letters nd c = Some e"
  shows "dig_deeper m idx =
     (let cur_level = guess_level idx + edge_probability e in
      if min_level idx \<le> cur_level \<and> cur_level \<le> max_level idx then
        Some (Inr (Some (g @ [c]), idx\<lparr>guess := Some (g @ [c]), guess_level := cur_level\<rparr>))
      else if cur_level > max_level idx then Some (Inr (None, idx))
      else dig_deeper m (idx\<lparr>guess := Some (g @ [c]), guess_level := cur_level\<rparr>))"
  using assms by (subst dig_deeper.simps) (simp add: Let_def)

lemma after_append: "s \<notin> set pre \<Longrightarrow> after s (pre @ ys) = after s ys"
  by (induction pre) auto

lemma after_after:
  assumes "distinct xs" "after c xs = s # ss"
  shows "after s xs = ss"
proof -
  have "c \<in> set xs"
  proof (rule ccontr)
    assume "c \<notin> set xs"
    then have "after c xs = []" by (induction xs) auto
    with assms(2) show False by simp
  qed
  from after_split [OF this] assms(2) obtain pre where xs: "xs = pre @ c # s # ss" by auto
  with assms(1) have "s \<notin> set pre" "s \<noteq> c" by auto
  then show ?thesis by (simp add: xs after_append)
qed

lemma after_head_mem: "after c xs = s # ss \<Longrightarrow> s \<in> set xs"
  using set_after [of c xs] by auto

lemma vrest_first_child:
  assumes "kids p = c # cs" "0 < tp m p c" "L + tp m p c \<le> mx"
  shows "vrest m mx tops kids (p # r) L =
     (rev (c # p # r), L + tp m p c) # vrest m mx tops kids (c # p # r) (L + tp m p c)"
  using assms by (simp add: vrest_def explore.simps Let_def)

lemma vrest_pruned:
  assumes "kids p = [] \<or> (\<exists>c cs. kids p = c # cs \<and> mx < L + tp m p c)"
  shows "vrest m mx tops kids (p # r) L = vafter m mx tops kids (p # r) L"
  using assms by (auto simp: vrest_def explore.simps Let_def)

lemma vafter_pop:
  assumes "after c (kids p) = [] \<or> (\<exists>s ss. after c (kids p) = s # ss \<and> mx < L - tp m p c + tp m p s)"
  shows "vafter m mx tops kids (c # p # r) L = vafter m mx tops kids (p # r) (L - tp m p c)"
  using assms by (auto simp: explore.simps Let_def)

lemma vafter_sibling:
  assumes "distinct (kids p)" "after c (kids p) = s # ss" "0 < tp m p s"
    "L - tp m p c + tp m p s \<le> mx"
  shows "vafter m mx tops kids (c # p # r) L =
     (rev (s # p # r), L - tp m p c + tp m p s)
       # vrest m mx tops kids (s # p # r) (L - tp m p c + tp m p s)"
  using assms after_after [OF assms(1,2)]
  by (simp add: vrest_def explore.simps Let_def)

lemma vafter_top_end:
  assumes "after c tops = [] \<or> (\<exists>s ss. after c tops = s # ss \<and> mx < sp m s)"
  shows "vafter m mx tops kids [c] L = []"
  using assms by (auto simp: Let_def)

lemma vafter_top_sibling:
  assumes "distinct tops" "after c tops = s # ss" "sp m s \<le> mx"
  shows "vafter m mx tops kids [c] L = ([s], sp m s) # vrest m mx tops kids [s] (sp m s)"
  using assms after_after [OF assms(1,2)]
  by (simp add: vrest_def Let_def)

lemma positive_tp:
  "positive_transitions m kids ls \<Longrightarrow> p \<in> set ls \<Longrightarrow> c \<in> set (kids p) \<Longrightarrow> 0 < tp m p c"
  by (auto simp: positive_transitions_def list_all_iff)

lemma rpath_hd_ls:
  "model_chains m tops kids ls \<Longrightarrow> rpath tops kids (p # r) \<Longrightarrow> p \<in> set ls"
  using rpath_ls [of m tops kids ls "p # r"] by simp

lemma dig_deeper_sim:
  assumes wf: "model_chains m tops kids ls" and pos: "positive_transitions m kids ls"
    and rp: "rpath tops kids rq"
  shows "\<exists>pre. (\<forall>x \<in> set pre. snd x < mn) \<and>
     ((\<exists>rg l. dig_deeper m (at mn mx rq L) = Some (Inr (Some (rev rg), at mn mx rg l))
          \<and> mn \<le> l \<and> l \<le> mx \<and> rpath tops kids rg
          \<and> vrest m mx tops kids rq L = pre @ (rev rg, l) # vrest m mx tops kids rg l)
      \<or> (\<exists>rq' L'. dig_deeper m (at mn mx rq L) = Some (Inr (None, at mn mx rq' L'))
          \<and> rpath tops kids rq'
          \<and> vrest m mx tops kids rq L = pre @ vafter m mx tops kids rq' L'))"
  using rp
proof (induction "nat (mn - L)" arbitrary: rq L rule: less_induct)
  case less
  from less.prems obtain p r where rq: "rq = p # r" by (cases rq) auto
  from rpath_hd_ls [OF wf] less.prems rq have pls: "p \<in> set ls" by simp
  from chains_node [OF wf pls] obtain nd where nd: "markov_stats m p = Some nd"
    and fc: "first_child nd = (case kids p of [] \<Rightarrow> None | c # _ \<Rightarrow> Some c)"
    and ed: "\<forall>c \<in> set (kids p). \<exists>e. following_letters nd c = Some e
                 \<and> edge_probability e = tp m p c
                 \<and> edge_next e = (case after c (kids p) of [] \<Rightarrow> None | s # _ \<Rightarrow> Some s)"
    by blast
  let ?idx = "at mn mx rq L"
  have g: "guess ?idx = Some (rev rq)" "rev rq \<noteq> []" "last (rev rq) = p"
    using rq by (simp_all add: at_def)
  have nd': "markov_stats m (last (rev rq)) = Some nd" using nd g(3) by simp
  have foundI: ?case
    if "\<forall>x \<in> set pre. snd x < mn"
      "dig_deeper m (at mn mx rq L) = Some (Inr (Some (rev rg), at mn mx rg l))"
      "mn \<le> l" "l \<le> mx" "rpath tops kids rg"
      "vrest m mx tops kids rq L = pre @ (rev rg, l) # vrest m mx tops kids rg l"
    for pre rg l
    using that by blast
  have noneI: ?case
    if "\<forall>x \<in> set pre. snd x < mn"
      "dig_deeper m (at mn mx rq L) = Some (Inr (None, at mn mx rq' L'))"
      "rpath tops kids rq'"
      "vrest m mx tops kids rq L = pre @ vafter m mx tops kids rq' L'"
    for pre rq' L'
    using that by blast
  show ?case
  proof (cases "kids p")
    case Nil
    with fc have "first_child nd = None" by simp
    from dig_deeper_leaf [OF g(1) g(2) nd' this]
    have dd: "dig_deeper m ?idx = Some (Inr (None, at mn mx rq L))" .
    have "vrest m mx tops kids rq L = [] @ vafter m mx tops kids rq L"
      using vrest_pruned [of kids p mx L m tops r] Nil rq by simp
    with dd less.prems show ?thesis
      by (intro noneI [of "[]" rq L]) simp_all
  next
    case (Cons c cs)
    with fc have fc': "first_child nd = Some c" by simp
    from ed Cons obtain e where e: "following_letters nd c = Some e"
      and ep: "edge_probability e = tp m p c" by auto
    have tpos: "0 < tp m p c" using positive_tp [OF pos pls] Cons by simp
    let ?l = "L + tp m p c"
    have upd: "?idx\<lparr>guess := Some (rev rq @ [c]), guess_level := ?l\<rparr> = at mn mx (c # rq) ?l"
      by (simp add: at_def)
    have step: "dig_deeper m ?idx =
      (if mn \<le> ?l \<and> ?l \<le> mx then Some (Inr (Some (rev (c # rq)), at mn mx (c # rq) ?l))
       else if mx < ?l then Some (Inr (None, ?idx))
       else dig_deeper m (at mn mx (c # rq) ?l))"
      using dig_deeper_child [OF g(1) g(2) nd' fc' e] upd
      by (simp add: Let_def ep) (simp add: at_def)
    have rp': "rpath tops kids (c # rq)"
      using less.prems rq Cons by simp
    show ?thesis
    proof (cases "mx < ?l")
      case True
      then have dd: "dig_deeper m ?idx = Some (Inr (None, at mn mx rq L))"
        using step by simp
      have "vrest m mx tops kids rq L = [] @ vafter m mx tops kids rq L"
        using vrest_pruned [of kids p mx L m tops r] Cons True rq by simp
      with dd less.prems show ?thesis
        by (intro noneI [of "[]" rq L]) simp_all
    next
      case False
      then have le: "?l \<le> mx" by simp
      have vr: "vrest m mx tops kids rq L =
          (rev (c # rq), ?l) # vrest m mx tops kids (c # rq) ?l"
        using vrest_first_child [where kids=kids and p=p and c=c and cs=cs and m=m and L=L
            and mx=mx and tops=tops and r=r] Cons tpos le rq by simp
      show ?thesis
      proof (cases "mn \<le> ?l")
        case True
        with le step have dd: "dig_deeper m ?idx =
            Some (Inr (Some (rev (c # rq)), at mn mx (c # rq) ?l))" by simp
        from vr have "vrest m mx tops kids rq L =
            [] @ (rev (c # rq), ?l) # vrest m mx tops kids (c # rq) ?l" by simp
        with dd True le rp' show ?thesis
          by (intro foundI [of "[]" "c # rq" "L + tp m p c"]) simp_all
      next
        case low: False
        with le step have dd: "dig_deeper m ?idx = dig_deeper m (at mn mx (c # rq) ?l)"
          by simp
        have "nat (mn - ?l) < nat (mn - L)" using low tpos by simp
        from less.hyps [OF this rp'] obtain pre where
          pre: "\<forall>x \<in> set pre. snd x < mn" and
          alt: "(\<exists>rg l. dig_deeper m (at mn mx (c # rq) ?l) =
                   Some (Inr (Some (rev rg), at mn mx rg l))
                \<and> mn \<le> l \<and> l \<le> mx \<and> rpath tops kids rg
                \<and> vrest m mx tops kids (c # rq) ?l = pre @ (rev rg, l) # vrest m mx tops kids rg l)
            \<or> (\<exists>rq' L'. dig_deeper m (at mn mx (c # rq) ?l) =
                   Some (Inr (None, at mn mx rq' L'))
                \<and> rpath tops kids rq'
                \<and> vrest m mx tops kids (c # rq) ?l = pre @ vafter m mx tops kids rq' L')"
          by blast
        let ?pre = "(rev (c # rq), ?l) # pre"
        have pre': "\<forall>x \<in> set ?pre. snd x < mn" using pre low by simp
        from alt show ?thesis
        proof (elim disjE exE conjE)
          fix rg l
          assume a: "dig_deeper m (at mn mx (c # rq) ?l) = Some (Inr (Some (rev rg), at mn mx rg l))"
            "mn \<le> l" "l \<le> mx" "rpath tops kids rg"
            "vrest m mx tops kids (c # rq) ?l = pre @ (rev rg, l) # vrest m mx tops kids rg l"
          from a(5) vr have "vrest m mx tops kids rq L =
              ?pre @ (rev rg, l) # vrest m mx tops kids rg l" by simp
          with a(1-4) dd pre' show ?thesis
            by (intro foundI [of ?pre rg l]) simp_all
        next
          fix rq' L'
          assume a: "dig_deeper m (at mn mx (c # rq) ?l) = Some (Inr (None, at mn mx rq' L'))"
            "rpath tops kids rq'"
            "vrest m mx tops kids (c # rq) ?l = pre @ vafter m mx tops kids rq' L'"
          from a(3) vr have "vrest m mx tops kids rq L =
              ?pre @ vafter m mx tops kids rq' L'" by simp
          with a(1,2) dd pre' show ?thesis
            by (intro noneI [of ?pre rq' L']) simp_all
        qed
      qed
    qed
  qed
qed

lemma widen_sim:
  assumes wf: "model_chains m tops kids ls" and pos: "positive_transitions m kids ls"
    and B: "mn \<le> mx" and rp: "rpath tops kids rq"
  shows "(\<exists>rg l. widen m (at mn mx rq L) = Inr (Return (Some (rev rg)), at mn mx rg l)
            \<and> mn \<le> l \<and> l \<le> mx \<and> rpath tops kids rg
            \<and> vafter m mx tops kids rq L = (rev rg, l) # vrest m mx tops kids rg l)
       \<or> (\<exists>rg l. widen m (at mn mx rq L) = Inr (Break, at mn mx rg l)
            \<and> l < mn \<and> rpath tops kids rg
            \<and> vafter m mx tops kids rq L = (rev rg, l) # vrest m mx tops kids rg l)
       \<or> (\<exists>l. widen m (at mn mx rq L) = Inr (Return None, exhausted mn mx l)
            \<and> vafter m mx tops kids rq L = [])"
  using rp
proof (induction "length rq" arbitrary: rq L)
  case 0
  then show ?case by simp
next
  case (Suc n)
  let ?idx = "at mn mx rq L"
  have retI: ?case
    if "widen m ?idx = Inr (Return (Some (rev rg)), at mn mx rg l)"
      "mn \<le> l" "l \<le> mx" "rpath tops kids rg"
      "vafter m mx tops kids rq L = (rev rg, l) # vrest m mx tops kids rg l"
    for rg l
    using that by blast
  have brkI: ?case
    if "widen m ?idx = Inr (Break, at mn mx rg l)"
      "l < mn" "rpath tops kids rg"
      "vafter m mx tops kids rq L = (rev rg, l) # vrest m mx tops kids rg l"
    for rg l
    using that by blast
  have endI: ?case
    if "widen m ?idx = Inr (Return None, exhausted mn mx l)"
      "vafter m mx tops kids rq L = []"
    for l
    using that by blast
  from Suc.prems obtain c r0 where rq: "rq = c # r0" by (cases rq) auto
  show ?case
  proof (cases r0)
    case Nil
    with rq Suc.prems have c: "c \<in> set tops" and rq1: "rq = [c]" by simp_all
    from chains_top [OF wf c] obtain nd where nd: "markov_stats m c = Some nd"
      and nx: "node_next nd = (case after c tops of [] \<Rightarrow> None | s # _ \<Rightarrow> Some s)"
      by blast
    have g: "guess ?idx = Some [c]" by (simp add: at_def rq1)
    have w: "widen m ?idx =
      (case dig_wider_base m ?idx c of
         Inl e \<Rightarrow> Inl e
       | Inr (more_work, ret_value, idx') \<Rightarrow>
           if more_work then Inr (Break, idx') else Inr (Return ret_value, idx'))"
      by (rule widen_base [OF g])
    from wf have dt: "distinct tops" by (simp add: model_chains_def)
    show ?thesis
    proof (cases "after c tops")
      case Nil
      with nx have "node_next nd = None" by simp
      with nd have "dig_wider_base m ?idx c = Inr (False, None, exhausted mn mx L)"
        by (simp add: dig_wider_base_def at_def exhausted_def Let_def)
      with w have "widen m ?idx = Inr (Return None, exhausted mn mx L)" by simp
      moreover have "vafter m mx tops kids rq L = []"
        using vafter_top_end [of c tops mx m kids L] Nil rq1 by simp
      ultimately show ?thesis by (rule endI)
    next
      case (Cons s ss)
      with nx have nx': "node_next nd = Some s" by simp
      from after_head_mem [OF Cons] have s: "s \<in> set tops" .
      from chains_top [OF wf s] obtain nd' where nd': "markov_stats m s = Some nd'"
        and pr: "probability nd' = sp m s" by blast
      show ?thesis
      proof (cases "mx < sp m s")
        case True
        with nd nx' nd' pr have "dig_wider_base m ?idx c = Inr (False, None, exhausted mn mx (sp m s))"
          by (simp add: dig_wider_base_def at_def exhausted_def Let_def)
        with w have "widen m ?idx = Inr (Return None, exhausted mn mx (sp m s))" by simp
        moreover have "vafter m mx tops kids rq L = []"
          using vafter_top_end [of c tops mx m kids L] Cons True rq1 by auto
        ultimately show ?thesis by (rule endI)
      next
        case False
        then have le: "sp m s \<le> mx" by simp
        have va: "vafter m mx tops kids rq L = (rev [s], sp m s) # vrest m mx tops kids [s] (sp m s)"
          using vafter_top_sibling [OF dt Cons le, of kids L] rq1 by simp
        have rps: "rpath tops kids [s]" using s by simp
        show ?thesis
        proof (cases "mn \<le> sp m s")
          case True
          with le nd nx' nd' pr
          have "dig_wider_base m ?idx c = Inr (False, Some (rev [s]), at mn mx [s] (sp m s))"
            by (simp add: dig_wider_base_def at_def rq1 Let_def)
          with w have "widen m ?idx = Inr (Return (Some (rev [s])), at mn mx [s] (sp m s))"
            by simp
          from this True le rps va show ?thesis by (rule retI)
        next
          case low: False
          with le nd nx' nd' pr
          have "dig_wider_base m ?idx c = Inr (True, None, at mn mx [s] (sp m s))"
            by (simp add: dig_wider_base_def at_def rq1 Let_def)
          with w have "widen m ?idx = Inr (Break, at mn mx [s] (sp m s))"
            by simp
          moreover from low have "sp m s < mn" by simp
          ultimately show ?thesis using rps va by (rule brkI)
        qed
      qed
    qed
  next
    case (Cons p r)
    with rq have rq2: "rq = c # p # r" by simp
    with Suc.prems have ck: "c \<in> set (kids p)" and rpp: "rpath tops kids (p # r)" by simp_all
    from rpath_hd_ls [OF wf rpp] have pls: "p \<in> set ls" .
    from chains_node [OF wf pls] obtain nd where nd: "markov_stats m p = Some nd"
      and dk: "distinct (kids p)"
      and ed: "\<forall>c \<in> set (kids p). \<exists>e. following_letters nd c = Some e
                 \<and> edge_probability e = tp m p c
                 \<and> edge_next e = (case after c (kids p) of [] \<Rightarrow> None | s # _ \<Rightarrow> Some s)"
      by blast
    from ed ck obtain e where e: "following_letters nd c = Some e"
      and ep: "edge_probability e = tp m p c"
      and en: "edge_next e = (case after c (kids p) of [] \<Rightarrow> None | s # _ \<Rightarrow> Some s)"
      by blast
    have g: "guess ?idx = Some (rev r @ [p, c])" by (simp add: at_def rq2)
    have len: "n = length (p # r)" using Suc.hyps(2) rq2 by simp
    let ?L' = "L - tp m p c"
    have popidx: "?idx\<lparr>guess_level := guess_level ?idx - edge_probability e,
                       guess := Some (rev r @ [p])\<rparr> = at mn mx (p # r) ?L'"
      by (simp add: at_def ep)
    have popI: ?thesis
      if wp: "widen m ?idx = widen m (at mn mx (p # r) ?L')"
        and vp: "vafter m mx tops kids rq L = vafter m mx tops kids (p # r) ?L'"
      using Suc.hyps(1) [OF len rpp, of ?L'] unfolding wp vp .
    show ?thesis
    proof (cases "after c (kids p)")
      case Nil
      with en have "edge_next e = None" by simp
      from widen_no_sibling [OF g nd e this] popidx
      have wp: "widen m ?idx = widen m (at mn mx (p # r) ?L')" by simp
      have vp: "vafter m mx tops kids rq L = vafter m mx tops kids (p # r) ?L'"
        using vafter_pop [where kids=kids and p=p and c=c and mx=mx and L=L and m=m
            and tops=tops and r=r] Nil rq2 by simp
      from wp vp show ?thesis by (rule popI)
    next
      case (Cons s ss)
      with en have en': "edge_next e = Some s" by simp
      from after_head_mem [OF Cons] have sk: "s \<in> set (kids p)" .
      from ed sk obtain e' where e': "following_letters nd s = Some e'"
        and ep': "edge_probability e' = tp m p s" by blast
      have tpos: "0 < tp m p s" using positive_tp [OF pos pls sk] .
      let ?l = "L - tp m p c + tp m p s"
      have gl: "guess_level ?idx = L" "min_level ?idx = mn" "max_level ?idx = mx"
        by (simp_all add: at_def)
      have updc: "?idx\<lparr>guess_level := L - tp m p c + tp m p s,
                         guess := Some (rev r @ [p, s])\<rparr> = at mn mx (s # p # r) ?l"
        by (simp add: at_def)
      have updp: "?idx\<lparr>guess_level := L - tp m p c, guess := Some (rev r @ [p])\<rparr> =
                    at mn mx (p # r) ?L'"
        by (simp add: at_def)
      have sib: "widen m ?idx =
        (if mn \<le> ?l \<and> ?l \<le> mx then
           Inr (Return (Some (rev r @ [p, s])), at mn mx (s # p # r) ?l)
         else if ?l < mx then Inr (Break, at mn mx (s # p # r) ?l)
         else widen m (at mn mx (p # r) ?L'))"
        using widen_sibling [OF g nd e en' e']
        unfolding Let_def ep ep' gl updc updp .
      have rps: "rpath tops kids (s # p # r)" using sk rpp by simp
      have va: "vafter m mx tops kids rq L = (rev (s # p # r), ?l) # vrest m mx tops kids (s # p # r) ?l"
        if "?l \<le> mx"
        using vafter_sibling [where kids=kids and p=p and c=c and s=s and ss=ss and m=m
            and L=L and mx=mx and tops=tops and r=r] dk Cons tpos that rq2 by simp
      show ?thesis
      proof (cases "mn \<le> ?l \<and> ?l \<le> mx")
        case True
        with sib have "widen m ?idx =
            Inr (Return (Some (rev (s # p # r))), at mn mx (s # p # r) ?l)" by simp
        with True rps va show ?thesis by (intro retI [of "s # p # r" ?l]) simp_all
      next
        case nr: False
        show ?thesis
        proof (cases "?l < mx")
          case True
          with nr sib have "widen m ?idx = Inr (Break, at mn mx (s # p # r) ?l)" by simp
          moreover from nr True have "?l < mn" by simp
          ultimately show ?thesis using True rps va
            by (intro brkI [of "s # p # r" ?l]) simp_all
        next
          case False
          from sib have wp: "widen m ?idx = widen m (at mn mx (p # r) ?L')"
            unfolding if_not_P [OF nr] if_not_P [OF False] .
          from nr False B have hi: "mx < ?l" by simp
          have vp: "vafter m mx tops kids rq L = vafter m mx tops kids (p # r) ?L'"
            using vafter_pop [where kids=kids and p=p and c=c and mx=mx and L=L and m=m
                and tops=tops and r=r] Cons hi rq2 by simp
          from wp vp show ?thesis by (rule popI)
        qed
      qed
    qed
  qed
qed

lemma yield_skip: "\<forall>x \<in> set pre. snd x < mn \<Longrightarrow> yield mn (pre @ xs) = yield mn xs"
  by (induction pre) (auto simp: yield_def)

lemma yield_Cons: "mn \<le> l \<Longrightarrow> yield mn ((g, l) # xs) = g # yield mn xs"
  by (simp add: yield_def)

lemma yield_Nil: "\<forall>x \<in> set pre. snd x < mn \<Longrightarrow> yield mn pre = []"
  using yield_skip [of pre mn "[]"] by (simp add: yield_def)

lemma loop_found:
  "dig_deeper m idx = Some (Inr (Some g, idx1)) \<Longrightarrow>
   next_guess_loop m idx = Some (Inr (Some g, idx1))"
  by (subst next_guess_loop.simps) simp

lemma loop_widen:
  "dig_deeper m idx = Some (Inr (None, idx1)) \<Longrightarrow>
   next_guess_loop m idx =
     (case widen m idx1 of
        Inl e \<Rightarrow> Some (Inl e)
      | Inr (Return ret_value, idx2) \<Rightarrow> Some (Inr (ret_value, idx2))
      | Inr (Break, idx2) \<Rightarrow> next_guess_loop m idx2)"
  by (subst next_guess_loop.simps) simp

lemma loop_sim:
  assumes wf: "model_chains m tops kids ls" and pos: "positive_transitions m kids ls"
    and B: "mn \<le> mx" and rp: "rpath tops kids rq"
  shows "\<exists>pre. (\<forall>x \<in> set pre. snd x < mn) \<and>
     ((\<exists>rg l. next_guess_loop m (at mn mx rq L) = Some (Inr (Some (rev rg), at mn mx rg l))
          \<and> mn \<le> l \<and> l \<le> mx \<and> rpath tops kids rg
          \<and> vrest m mx tops kids rq L = pre @ (rev rg, l) # vrest m mx tops kids rg l)
      \<or> (\<exists>l. next_guess_loop m (at mn mx rq L) = Some (Inr (None, exhausted mn mx l))
          \<and> vrest m mx tops kids rq L = pre))"
  using rp
proof (induction "length (vrest m mx tops kids rq L)" arbitrary: rq L rule: less_induct)
  case less
  let ?idx = "at mn mx rq L"
  have foundI: ?case
    if "\<forall>x \<in> set pre. snd x < mn"
      "next_guess_loop m ?idx = Some (Inr (Some (rev rg), at mn mx rg l))"
      "mn \<le> l" "l \<le> mx" "rpath tops kids rg"
      "vrest m mx tops kids rq L = pre @ (rev rg, l) # vrest m mx tops kids rg l"
    for pre rg l
    using that by blast
  have endI: ?case
    if "\<forall>x \<in> set pre. snd x < mn"
      "next_guess_loop m ?idx = Some (Inr (None, exhausted mn mx l))"
      "vrest m mx tops kids rq L = pre"
    for pre l
    using that by blast
  from dig_deeper_sim [OF wf pos less.prems, where mn=mn and mx=mx and L=L] obtain pre1 where
    pre1: "\<forall>x \<in> set pre1. snd x < mn" and
    alt: "(\<exists>rg l. dig_deeper m ?idx = Some (Inr (Some (rev rg), at mn mx rg l))
          \<and> mn \<le> l \<and> l \<le> mx \<and> rpath tops kids rg
          \<and> vrest m mx tops kids rq L = pre1 @ (rev rg, l) # vrest m mx tops kids rg l)
      \<or> (\<exists>rq' L'. dig_deeper m ?idx = Some (Inr (None, at mn mx rq' L'))
          \<and> rpath tops kids rq'
          \<and> vrest m mx tops kids rq L = pre1 @ vafter m mx tops kids rq' L')"
    by blast
  from alt show ?case
  proof (elim disjE exE conjE)
    fix rg l
    assume a: "dig_deeper m ?idx = Some (Inr (Some (rev rg), at mn mx rg l))"
      "mn \<le> l" "l \<le> mx" "rpath tops kids rg"
      "vrest m mx tops kids rq L = pre1 @ (rev rg, l) # vrest m mx tops kids rg l"
    from pre1 loop_found [OF a(1)] a(2-5) show ?case by (rule foundI)
  next
    fix rq' L'
    assume a: "dig_deeper m ?idx = Some (Inr (None, at mn mx rq' L'))"
      "rpath tops kids rq'"
      "vrest m mx tops kids rq L = pre1 @ vafter m mx tops kids rq' L'"
    note lw = loop_widen [OF a(1)]
    from widen_sim [OF wf pos B a(2), where L=L']
    show ?case
    proof (elim disjE exE conjE)
      fix rg l
      assume w: "widen m (at mn mx rq' L') = Inr (Return (Some (rev rg)), at mn mx rg l)"
        "mn \<le> l" "l \<le> mx" "rpath tops kids rg"
        "vafter m mx tops kids rq' L' = (rev rg, l) # vrest m mx tops kids rg l"
      from lw w(1) have "next_guess_loop m ?idx = Some (Inr (Some (rev rg), at mn mx rg l))"
        by simp
      moreover from a(3) w(5)
      have "vrest m mx tops kids rq L = pre1 @ (rev rg, l) # vrest m mx tops kids rg l"
        by simp
      ultimately show ?case using pre1 w(2-4) by (intro foundI [of pre1 rg l]) simp_all
    next
      fix rg l
      assume w: "widen m (at mn mx rq' L') = Inr (Break, at mn mx rg l)"
        "l < mn" "rpath tops kids rg"
        "vafter m mx tops kids rq' L' = (rev rg, l) # vrest m mx tops kids rg l"
      from lw w(1) have lp: "next_guess_loop m ?idx = next_guess_loop m (at mn mx rg l)"
        by simp
      from a(3) w(4)
      have vr: "vrest m mx tops kids rq L = pre1 @ (rev rg, l) # vrest m mx tops kids rg l"
        by simp
      then have "length (vrest m mx tops kids rg l) < length (vrest m mx tops kids rq L)"
        by simp
      from less.hyps [OF this w(3)] obtain pre2 where
        pre2: "\<forall>x \<in> set pre2. snd x < mn" and
        alt2: "(\<exists>rg' l'. next_guess_loop m (at mn mx rg l) =
                  Some (Inr (Some (rev rg'), at mn mx rg' l'))
              \<and> mn \<le> l' \<and> l' \<le> mx \<and> rpath tops kids rg'
              \<and> vrest m mx tops kids rg l = pre2 @ (rev rg', l') # vrest m mx tops kids rg' l')
          \<or> (\<exists>l'. next_guess_loop m (at mn mx rg l) = Some (Inr (None, exhausted mn mx l'))
              \<and> vrest m mx tops kids rg l = pre2)"
        by blast
      let ?pre = "pre1 @ (rev rg, l) # pre2"
      have pre: "\<forall>x \<in> set ?pre. snd x < mn" using pre1 pre2 w(2) by auto
      from alt2 show ?case
      proof (elim disjE exE conjE)
        fix rg' l'
        assume b: "next_guess_loop m (at mn mx rg l) = Some (Inr (Some (rev rg'), at mn mx rg' l'))"
          "mn \<le> l'" "l' \<le> mx" "rpath tops kids rg'"
          "vrest m mx tops kids rg l = pre2 @ (rev rg', l') # vrest m mx tops kids rg' l'"
        from vr b(5) have "vrest m mx tops kids rq L =
            ?pre @ (rev rg', l') # vrest m mx tops kids rg' l'" by simp
        with pre lp b(1-4) show ?case by (intro foundI [of ?pre rg' l']) simp_all
      next
        fix l'
        assume b: "next_guess_loop m (at mn mx rg l) = Some (Inr (None, exhausted mn mx l'))"
          "vrest m mx tops kids rg l = pre2"
        from vr b(2) have "vrest m mx tops kids rq L = ?pre" by simp
        with pre lp b(1) show ?case by (intro endI [of ?pre l']) simp_all
      qed
    next
      fix l
      assume w: "widen m (at mn mx rq' L') = Inr (Return None, exhausted mn mx l)"
        "vafter m mx tops kids rq' L' = []"
      from lw w(1) have "next_guess_loop m ?idx = Some (Inr (None, exhausted mn mx l))"
        by simp
      moreover from a(3) w(2) have "vrest m mx tops kids rq L = pre1" by simp
      ultimately show ?case using pre1 by (intro endI [of pre1 l]) simp_all
    qed
  qed
qed

lemma next_guess_at: "next_guess m (at mn mx rq L) = next_guess_loop m (at mn mx rq L)"
  by (simp add: next_guess_def at_def)

lemma session_sim:
  assumes wf: "model_chains m tops kids ls" and pos: "positive_transitions m kids ls"
    and B: "mn \<le> mx" and rp: "rpath tops kids rq"
  shows "\<exists>l. session m (at mn mx rq L) (Suc (length (yield mn (vrest m mx tops kids rq L)))) =
     Some (map Some (yield mn (vrest m mx tops kids rq L)) @ [None], exhausted mn mx l)"
  using rp
proof (induction "length (vrest m mx tops kids rq L)" arbitrary: rq L rule: less_induct)
  case less
  from loop_sim [OF wf pos B less.prems, where L=L] obtain pre where
    pre: "\<forall>x \<in> set pre. snd x < mn" and
    alt: "(\<exists>rg l. next_guess_loop m (at mn mx rq L) = Some (Inr (Some (rev rg), at mn mx rg l))
          \<and> mn \<le> l \<and> l \<le> mx \<and> rpath tops kids rg
          \<and> vrest m mx tops kids rq L = pre @ (rev rg, l) # vrest m mx tops kids rg l)
      \<or> (\<exists>l. next_guess_loop m (at mn mx rq L) = Some (Inr (None, exhausted mn mx l))
          \<and> vrest m mx tops kids rq L = pre)"
    by blast
  from alt show ?case
  proof (elim disjE exE conjE)
    fix rg l
    assume a: "next_guess_loop m (at mn mx rq L) = Some (Inr (Some (rev rg), at mn mx rg l))"
      "mn \<le> l" "l \<le> mx" "rpath tops kids rg"
      "vrest m mx tops kids rq L = pre @ (rev rg, l) # vrest m mx tops kids rg l"
    have y: "yield mn (vrest m mx tops kids rq L) = rev rg # yield mn (vrest m mx tops kids rg l)"
      unfolding a(5) using pre a(2) by (simp add: yield_skip yield_Cons)
    from a(5) have "length (vrest m mx tops kids rg l) < length (vrest m mx tops kids rq L)"
      by simp
    from less.hyps [OF this a(4)] obtain l' where
      "session m (at mn mx rg l) (Suc (length (yield mn (vrest m mx tops kids rg l)))) =
         Some (map Some (yield mn (vrest m mx tops kids rg l)) @ [None], exhausted mn mx l')"
      by blast
    then have "session m (at mn mx rq L) (Suc (length (yield mn (vrest m mx tops kids rq L)))) =
       Some (map Some (yield mn (vrest m mx tops kids rq L)) @ [None], exhausted mn mx l')"
      unfolding y by (simp add: next_guess_at a(1))
    then show ?case by blast
  next
    fix l
    assume a: "next_guess_loop m (at mn mx rq L) = Some (Inr (None, exhausted mn mx l))"
      "vrest m mx tops kids rq L = pre"
    have y: "yield mn (vrest m mx tops kids rq L) = []"
      unfolding a(2) using pre by (rule yield_Nil)
    have "session m (at mn mx rq L) (Suc (length (yield mn (vrest m mx tops kids rq L)))) =
       Some (map Some (yield mn (vrest m mx tops kids rq L)) @ [None], exhausted mn mx l)"
      unfolding y by (simp add: next_guess_at a(1))
    then show ?case by blast
  qed
qed

section \<open>What the reference traversal visits\<close>

lemma sorted_tp:
  "sorted_chains m tops kids ls \<Longrightarrow> p \<in> set ls \<Longrightarrow> sorted (map (tp m p) (kids p))"
  by (simp add: sorted_chains_def list_all_iff)

lemma kids_ls:
  "model_chains m tops kids ls \<Longrightarrow> p \<in> set ls \<Longrightarrow> set (kids p) \<subseteq> set ls"
  using chains_node [of m tops kids ls p] by blast

lemma wsum_nonneg:
  assumes wf: "model_chains m tops kids ls" and pos: "positive_transitions m kids ls"
  shows "c \<in> set ls \<Longrightarrow> walk kids c s \<Longrightarrow> 0 \<le> wsum m c s"
proof (induction s arbitrary: c)
  case Nil
  then show ?case by simp
next
  case (Cons c' s)
  from Cons.prems have ck: "c' \<in> set (kids c)" and w: "walk kids c' s" by simp_all
  from kids_ls [OF wf Cons.prems(1)] ck have "c' \<in> set ls" by blast
  from Cons.IH [OF this w] positive_tp [OF pos Cons.prems(1) ck] show ?case by simp
qed

lemma explore_shape:
  "(g, l) \<in> set (explore m mx kids q lvl cs) \<Longrightarrow> \<exists>c s. g = q @ c # s \<and> c \<in> set cs"
proof (induction m mx kids q lvl cs rule: explore.induct)
  case (1 m mx kids q lvl)
  then show ?case by (simp add: explore.simps)
next
  case (2 m mx kids q lvl c cs)
  let ?t = "tp m (last q) c"
  let ?l = "lvl + ?t"
  show ?case
  proof (cases "?t \<le> 0 \<or> mx < ?l")
    case True
    with "2.prems" show ?thesis by (simp add: explore.simps)
  next
    case False
    with "2.prems" consider "g = q @ [c]"
      | "(g, l) \<in> set (explore m mx kids (q @ [c]) ?l (kids c))"
      | "(g, l) \<in> set (explore m mx kids q lvl cs)"
      by (auto simp: explore.simps(2) [of m mx kids q lvl c cs] Let_def)
    then show ?thesis
    proof cases
      case 1
      then show ?thesis by auto
    next
      case 2
      from "2.IH"(1) [OF refl refl False this] obtain c' s where "g = (q @ [c]) @ c' # s"
        by blast
      then have "g = q @ c # (c' # s)" by simp
      then show ?thesis by auto
    next
      case 3
      from "2.IH"(2) [OF refl refl False this] show ?thesis by auto
    qed
  qed
qed

lemma explore_iff:
  "model_chains m tops kids ls \<Longrightarrow> positive_transitions m kids ls \<Longrightarrow>
   sorted_chains m tops kids ls \<Longrightarrow>
   last q \<in> set ls \<Longrightarrow> set cs \<subseteq> set (kids (last q)) \<Longrightarrow>
     sorted (map (tp m (last q)) cs) \<Longrightarrow>
     (g, l) \<in> set (explore m mx kids q lvl cs) \<longleftrightarrow>
       (\<exists>c s. g = q @ c # s \<and> c \<in> set cs \<and> walk kids c s
          \<and> l = lvl + tp m (last q) c + wsum m c s \<and> l \<le> mx)"
proof (induction m mx kids q lvl cs arbitrary: g l rule: explore.induct)
  case (1 m mx kids q lvl)
  then show ?case by (simp add: explore.simps)
next
  case (2 m mx kids q lvl c0 cs)
  note wf = "2.prems"(1) and pos = "2.prems"(2) and srt = "2.prems"(3)
  let ?p = "last q"
  let ?t = "tp m ?p c0"
  let ?l = "lvl + ?t"
  from "2.prems"(5) have c0k: "c0 \<in> set (kids ?p)" and csk: "set cs \<subseteq> set (kids ?p)"
    by simp_all
  from "2.prems"(6) have srt_cs: "sorted (map (tp m ?p) cs)"
    and least: "\<forall>c \<in> set cs. ?t \<le> tp m ?p c" by simp_all
  have tpos: "0 < ?t" using positive_tp [OF pos "2.prems"(4) c0k] .
  have c0ls: "c0 \<in> set ls" using kids_ls [OF wf "2.prems"(4)] c0k by blast
  have nonneg: "0 \<le> wsum m c s" if "c \<in> set (c0 # cs)" "walk kids c s" for c s
  proof -
    from that(1) c0k csk have "c \<in> set (kids ?p)" by auto
    with kids_ls [OF wf "2.prems"(4)] have "c \<in> set ls" by blast
    from wsum_nonneg [OF wf pos this that(2)] show ?thesis .
  qed
  show ?case
  proof (cases "mx < ?l")
    case True
    then have "explore m mx kids q lvl (c0 # cs) = []"
      by (simp add: explore.simps Let_def)
    moreover have "\<not> (\<exists>c s. g = q @ c # s \<and> c \<in> set (c0 # cs) \<and> walk kids c s
          \<and> l = lvl + tp m ?p c + wsum m c s \<and> l \<le> mx)"
    proof
      assume "\<exists>c s. g = q @ c # s \<and> c \<in> set (c0 # cs) \<and> walk kids c s
          \<and> l = lvl + tp m ?p c + wsum m c s \<and> l \<le> mx"
      then obtain c s where cs: "c \<in> set (c0 # cs)" "walk kids c s"
        "l = lvl + tp m ?p c + wsum m c s" "l \<le> mx" by blast
      from cs(1) least have "?t \<le> tp m ?p c" by auto
      with nonneg [OF cs(1,2)] cs(3,4) True show False by simp
    qed
    ultimately show ?thesis by simp
  next
    case False
    with tpos have go: "\<not> (?t \<le> 0 \<or> mx < ?l)" by simp
    have unf: "explore m mx kids q lvl (c0 # cs) =
        (q @ [c0], ?l) # explore m mx kids (q @ [c0]) ?l (kids c0) @ explore m mx kids q lvl cs"
      using go by (simp add: explore.simps Let_def)
    have ih1: "(g, l) \<in> set (explore m mx kids (q @ [c0]) ?l (kids c0)) \<longleftrightarrow>
       (\<exists>c s. g = (q @ [c0]) @ c # s \<and> c \<in> set (kids c0) \<and> walk kids c s
          \<and> l = ?l + tp m c0 c + wsum m c s \<and> l \<le> mx)"
      using "2.IH"(1) [OF refl refl go wf pos srt, of g l] c0ls sorted_tp [OF srt c0ls]
      by simp
    have ih2: "(g, l) \<in> set (explore m mx kids q lvl cs) \<longleftrightarrow>
       (\<exists>c s. g = q @ c # s \<and> c \<in> set cs \<and> walk kids c s
          \<and> l = lvl + tp m ?p c + wsum m c s \<and> l \<le> mx)"
      using "2.IH"(2) [OF refl refl go wf pos srt "2.prems"(4) csk srt_cs] .
    show ?thesis
    proof
      assume "(g, l) \<in> set (explore m mx kids q lvl (c0 # cs))"
      with unf consider "g = q @ [c0]" "l = ?l"
        | "(g, l) \<in> set (explore m mx kids (q @ [c0]) ?l (kids c0))"
        | "(g, l) \<in> set (explore m mx kids q lvl cs)"
        by auto
      then show "\<exists>c s. g = q @ c # s \<and> c \<in> set (c0 # cs) \<and> walk kids c s
          \<and> l = lvl + tp m ?p c + wsum m c s \<and> l \<le> mx"
      proof cases
        case 1
        with False show ?thesis
          by (intro exI [of _ c0] exI [of _ "[]"]) simp
      next
        case 2
        with ih1 obtain c s where a: "g = (q @ [c0]) @ c # s" "c \<in> set (kids c0)"
          "walk kids c s" "l = ?l + tp m c0 c + wsum m c s" "l \<le> mx" by blast
        then show ?thesis
          by (intro exI [of _ c0] exI [of _ "c # s"]) simp
      next
        case 3
        with ih2 show ?thesis by auto
      qed
    next
      assume "\<exists>c s. g = q @ c # s \<and> c \<in> set (c0 # cs) \<and> walk kids c s
          \<and> l = lvl + tp m ?p c + wsum m c s \<and> l \<le> mx"
      then obtain c s where a: "g = q @ c # s" "c \<in> set (c0 # cs)" "walk kids c s"
        "l = lvl + tp m ?p c + wsum m c s" "l \<le> mx" by blast
      show "(g, l) \<in> set (explore m mx kids q lvl (c0 # cs))"
      proof (cases "c = c0")
        case True
        show ?thesis
        proof (cases s)
          case Nil
          with a True unf show ?thesis by simp
        next
          case (Cons c' s')
          with a True have "g = (q @ [c0]) @ c' # s'" "c' \<in> set (kids c0)" "walk kids c' s'"
            "l = ?l + tp m c0 c' + wsum m c' s'" by simp_all
          with a(5) ih1 have "(g, l) \<in> set (explore m mx kids (q @ [c0]) ?l (kids c0))"
            by blast
          with unf show ?thesis by simp
        qed
      next
        case False
        with a have "c \<in> set cs" by simp
        with a ih2 have "(g, l) \<in> set (explore m mx kids q lvl cs)" by blast
        with unf show ?thesis by simp
      qed
    qed
  qed
qed

lemma top_rest_shape:
  "(g, l) \<in> set (top_rest m mx kids cs) \<Longrightarrow> \<exists>c s. g = c # s \<and> c \<in> set cs"
proof (induction cs)
  case Nil
  then show ?case by simp
next
  case (Cons c0 cs)
  show ?case
  proof (cases "mx < sp m c0")
    case True
    with Cons.prems show ?thesis by (simp add: Let_def)
  next
    case False
    with Cons.prems consider "g = [c0]"
      | "(g, l) \<in> set (explore m mx kids [c0] (sp m c0) (kids c0))"
      | "(g, l) \<in> set (top_rest m mx kids cs)"
      by (auto simp: Let_def)
    then show ?thesis
    proof cases
      case 1
      then show ?thesis by simp
    next
      case 2
      from explore_shape [OF this] show ?thesis by auto
    next
      case 3
      from Cons.IH [OF this] show ?thesis by auto
    qed
  qed
qed

lemma sorted_sp: "sorted_chains m tops kids ls \<Longrightarrow> sorted (map (sp m) tops)"
  by (simp add: sorted_chains_def)

lemma top_rest_iff:
  assumes wf: "model_chains m tops kids ls" and pos: "positive_transitions m kids ls"
    and srt: "sorted_chains m tops kids ls"
  shows "set cs \<subseteq> set tops \<Longrightarrow> sorted (map (sp m) cs) \<Longrightarrow>
     (g, l) \<in> set (top_rest m mx kids cs) \<longleftrightarrow>
       (\<exists>c s. g = c # s \<and> c \<in> set cs \<and> walk kids c s
          \<and> l = sp m c + wsum m c s \<and> l \<le> mx)"
proof (induction cs)
  case Nil
  then show ?case by simp
next
  case (Cons c0 cs)
  let ?l = "sp m c0"
  from Cons.prems have c0t: "c0 \<in> set tops" and cst: "set cs \<subseteq> set tops"
    and srt_cs: "sorted (map (sp m) cs)" and least: "\<forall>c \<in> set cs. ?l \<le> sp m c"
    by simp_all
  have c0ls: "c0 \<in> set ls" using chains_tops_ls [OF wf] c0t by blast
  have nonneg: "0 \<le> wsum m c s" if "c \<in> set (c0 # cs)" "walk kids c s" for c s
  proof -
    from that(1) c0t cst chains_tops_ls [OF wf] have "c \<in> set ls" by auto
    from wsum_nonneg [OF wf pos this that(2)] show ?thesis .
  qed
  show ?case
  proof (cases "mx < ?l")
    case True
    then have "top_rest m mx kids (c0 # cs) = []" by (simp add: Let_def)
    moreover have "\<not> (\<exists>c s. g = c # s \<and> c \<in> set (c0 # cs) \<and> walk kids c s
          \<and> l = sp m c + wsum m c s \<and> l \<le> mx)"
    proof
      assume "\<exists>c s. g = c # s \<and> c \<in> set (c0 # cs) \<and> walk kids c s
          \<and> l = sp m c + wsum m c s \<and> l \<le> mx"
      then obtain c s where a: "c \<in> set (c0 # cs)" "walk kids c s"
        "l = sp m c + wsum m c s" "l \<le> mx" by blast
      from a(1) least have "?l \<le> sp m c" by auto
      with nonneg [OF a(1,2)] a(3,4) True show False by simp
    qed
    ultimately show ?thesis by simp
  next
    case False
    then have unf: "top_rest m mx kids (c0 # cs) =
        ([c0], ?l) # explore m mx kids [c0] ?l (kids c0) @ top_rest m mx kids cs"
      by (simp add: Let_def)
    have ex: "(g, l) \<in> set (explore m mx kids [c0] ?l (kids c0)) \<longleftrightarrow>
       (\<exists>c s. g = [c0] @ c # s \<and> c \<in> set (kids c0) \<and> walk kids c s
          \<and> l = ?l + tp m c0 c + wsum m c s \<and> l \<le> mx)"
      using explore_iff [OF wf pos srt, of "[c0]" "kids c0" g l mx ?l] c0ls sorted_tp [OF srt c0ls]
      by simp
    have ih: "(g, l) \<in> set (top_rest m mx kids cs) \<longleftrightarrow>
       (\<exists>c s. g = c # s \<and> c \<in> set cs \<and> walk kids c s
          \<and> l = sp m c + wsum m c s \<and> l \<le> mx)"
      using Cons.IH [OF cst srt_cs] .
    show ?thesis
    proof
      assume "(g, l) \<in> set (top_rest m mx kids (c0 # cs))"
      with unf consider "g = [c0]" "l = ?l"
        | "(g, l) \<in> set (explore m mx kids [c0] ?l (kids c0))"
        | "(g, l) \<in> set (top_rest m mx kids cs)"
        by auto
      then show "\<exists>c s. g = c # s \<and> c \<in> set (c0 # cs) \<and> walk kids c s
          \<and> l = sp m c + wsum m c s \<and> l \<le> mx"
      proof cases
        case 1
        with False show ?thesis
          by (intro exI [of _ c0] exI [of _ "[]"]) simp
      next
        case 2
        with ex obtain c s where a: "g = [c0] @ c # s" "c \<in> set (kids c0)"
          "walk kids c s" "l = ?l + tp m c0 c + wsum m c s" "l \<le> mx" by blast
        then show ?thesis
          by (intro exI [of _ c0] exI [of _ "c # s"]) simp
      next
        case 3
        with ih show ?thesis by auto
      qed
    next
      assume "\<exists>c s. g = c # s \<and> c \<in> set (c0 # cs) \<and> walk kids c s
          \<and> l = sp m c + wsum m c s \<and> l \<le> mx"
      then obtain c s where a: "g = c # s" "c \<in> set (c0 # cs)" "walk kids c s"
        "l = sp m c + wsum m c s" "l \<le> mx" by blast
      show "(g, l) \<in> set (top_rest m mx kids (c0 # cs))"
      proof (cases "c = c0")
        case True
        show ?thesis
        proof (cases s)
          case Nil
          with a True unf show ?thesis by simp
        next
          case (Cons c' s')
          with a True have "g = [c0] @ c' # s'" "c' \<in> set (kids c0)" "walk kids c' s'"
            "l = ?l + tp m c0 c' + wsum m c' s'" by simp_all
          with a(5) ex have "(g, l) \<in> set (explore m mx kids [c0] ?l (kids c0))"
            by blast
          with unf show ?thesis by simp
        qed
      next
        case False
        with a have "c \<in> set cs" by simp
        with a ih have "(g, l) \<in> set (top_rest m mx kids cs)" by blast
        with unf show ?thesis by simp
      qed
    qed
  qed
qed

lemma explore_distinct:
  "model_chains m tops kids ls \<Longrightarrow> last q \<in> set ls \<Longrightarrow> set cs \<subseteq> set (kids (last q)) \<Longrightarrow>
   distinct cs \<Longrightarrow> distinct (map fst (explore m mx kids q lvl cs))"
proof (induction m mx kids q lvl cs rule: explore.induct)
  case (1 m mx kids q lvl)
  then show ?case by (simp add: explore.simps)
next
  case (2 m mx kids q lvl c0 cs)
  note wf = "2.prems"(1)
  let ?t = "tp m (last q) c0"
  let ?l = "lvl + ?t"
  show ?case
  proof (cases "?t \<le> 0 \<or> mx < ?l")
    case True
    then show ?thesis by (simp add: explore.simps Let_def)
  next
    case False
    then have unf: "explore m mx kids q lvl (c0 # cs) =
        (q @ [c0], ?l) # explore m mx kids (q @ [c0]) ?l (kids c0) @ explore m mx kids q lvl cs"
      by (simp add: explore.simps Let_def)
    from "2.prems" have c0k: "c0 \<in> set (kids (last q))" and csk: "set cs \<subseteq> set (kids (last q))"
      and c0n: "c0 \<notin> set cs" and dcs: "distinct cs" by simp_all
    have c0ls: "c0 \<in> set ls" using kids_ls [OF wf "2.prems"(2)] c0k by blast
    from chains_node [OF wf c0ls] have dk: "distinct (kids c0)" by blast
    have d1: "distinct (map fst (explore m mx kids (q @ [c0]) ?l (kids c0)))"
      using "2.IH"(1) [OF refl refl False wf] c0ls dk by simp
    have d2: "distinct (map fst (explore m mx kids q lvl cs))"
      using "2.IH"(2) [OF refl refl False wf "2.prems"(2) csk dcs] .
    have s1: "\<exists>c s. g = q @ c0 # c # s"
      if "g \<in> fst ` set (explore m mx kids (q @ [c0]) ?l (kids c0))" for g
    proof -
      from that obtain l where "(g, l) \<in> set (explore m mx kids (q @ [c0]) ?l (kids c0))"
        by auto
      from explore_shape [OF this] show ?thesis by auto
    qed
    have s2: "\<exists>c s. g = q @ c # s \<and> c \<noteq> c0"
      if "g \<in> fst ` set (explore m mx kids q lvl cs)" for g
    proof -
      from that obtain l where "(g, l) \<in> set (explore m mx kids q lvl cs)" by auto
      from explore_shape [OF this] c0n show ?thesis by auto
    qed
    have n1: "q @ [c0] \<notin> fst ` set (explore m mx kids (q @ [c0]) ?l (kids c0))"
      using s1 by fastforce
    have n2: "q @ [c0] \<notin> fst ` set (explore m mx kids q lvl cs)"
      using s2 by fastforce
    have dj: "fst ` set (explore m mx kids (q @ [c0]) ?l (kids c0))
        \<inter> fst ` set (explore m mx kids q lvl cs) = {}"
    proof (rule ccontr)
      assume "\<not> ?thesis"
      then obtain g where g1: "g \<in> fst ` set (explore m mx kids (q @ [c0]) ?l (kids c0))"
        and g2: "g \<in> fst ` set (explore m mx kids q lvl cs)" by blast
      from s1 [OF g1] s2 [OF g2] show False by auto
    qed
    from d1 d2 n1 n2 dj show ?thesis
      unfolding unf by simp
  qed
qed

lemma top_rest_distinct:
  assumes wf: "model_chains m tops kids ls"
  shows "set cs \<subseteq> set tops \<Longrightarrow> distinct cs \<Longrightarrow> distinct (map fst (top_rest m mx kids cs))"
proof (induction cs)
  case Nil
  then show ?case by simp
next
  case (Cons c0 cs)
  let ?l = "sp m c0"
  show ?case
  proof (cases "mx < ?l")
    case True
    then show ?thesis by (simp add: Let_def)
  next
    case False
    then have unf: "top_rest m mx kids (c0 # cs) =
        ([c0], ?l) # explore m mx kids [c0] ?l (kids c0) @ top_rest m mx kids cs"
      by (simp add: Let_def)
    from Cons.prems have c0t: "c0 \<in> set tops" and cst: "set cs \<subseteq> set tops"
      and c0n: "c0 \<notin> set cs" and dcs: "distinct cs" by simp_all
    have c0ls: "c0 \<in> set ls" using chains_tops_ls [OF wf] c0t by blast
    from chains_node [OF wf c0ls] have dk: "distinct (kids c0)" by blast
    have d1: "distinct (map fst (explore m mx kids [c0] ?l (kids c0)))"
      using explore_distinct [OF wf, of "[c0]" "kids c0" mx ?l] c0ls dk by simp
    have d2: "distinct (map fst (top_rest m mx kids cs))"
      using Cons.IH [OF cst dcs] .
    have s1: "\<exists>c s. g = c0 # c # s"
      if "g \<in> fst ` set (explore m mx kids [c0] ?l (kids c0))" for g
    proof -
      from that obtain l where "(g, l) \<in> set (explore m mx kids [c0] ?l (kids c0))"
        by auto
      from explore_shape [OF this] show ?thesis by auto
    qed
    have s2: "\<exists>c s. g = c # s \<and> c \<noteq> c0"
      if "g \<in> fst ` set (top_rest m mx kids cs)" for g
    proof -
      from that obtain l where "(g, l) \<in> set (top_rest m mx kids cs)" by auto
      from top_rest_shape [OF this] c0n show ?thesis by auto
    qed
    have n1: "[c0] \<notin> fst ` set (explore m mx kids [c0] ?l (kids c0))"
      using s1 by fastforce
    have n2: "[c0] \<notin> fst ` set (top_rest m mx kids cs)"
      using s2 by fastforce
    have dj: "fst ` set (explore m mx kids [c0] ?l (kids c0))
        \<inter> fst ` set (top_rest m mx kids cs) = {}"
    proof (rule ccontr)
      assume "\<not> ?thesis"
      then obtain g where g1: "g \<in> fst ` set (explore m mx kids [c0] ?l (kids c0))"
        and g2: "g \<in> fst ` set (top_rest m mx kids cs)" by blast
      from s1 [OF g1] s2 [OF g2] show False by auto
    qed
    from d1 d2 n1 n2 dj show ?thesis
      unfolding unf by simp
  qed
qed

lemma edges_level_walk:
  assumes wf: "model_chains m tops kids ls"
  shows "c \<in> set ls \<Longrightarrow> walk kids c s \<Longrightarrow> edges_level m (c # s) = Some (wsum m c s)"
proof (induction s arbitrary: c)
  case Nil
  then show ?case by simp
next
  case (Cons c' s)
  from Cons.prems have ck: "c' \<in> set (kids c)" and w: "walk kids c' s" by simp_all
  from kids_ls [OF wf Cons.prems(1)] ck have c'ls: "c' \<in> set ls" by blast
  from chains_node [OF wf Cons.prems(1)] ck obtain nd e where
    "markov_stats m c = Some nd" "following_letters nd c' = Some e"
    "edge_probability e = tp m c c'" by blast
  then have "transition m c c' = Some (tp m c c')"
    by (simp add: transition_def)
  with Cons.IH [OF c'ls w] show ?case by simp
qed

lemma path_level_trie:
  assumes wf: "model_chains m tops kids ls" and c: "c \<in> set tops" and w: "walk kids c s"
  shows "path_level m (c # s) = Some (sp m c + wsum m c s)"
proof -
  from chains_top [OF wf c] have "start_probability m c = Some (sp m c)"
    by (auto simp: start_probability_def)
  moreover from chains_tops_ls [OF wf] c have "c \<in> set ls" by blast
  from edges_level_walk [OF wf this w] have "edges_level m (c # s) = Some (wsum m c s)" .
  ultimately show ?thesis by (simp add: path_level_def)
qed

lemma yield_top_rest:
  assumes wf: "model_chains m tops kids ls" and pos: "positive_transitions m kids ls"
    and srt: "sorted_chains m tops kids ls"
  shows "set (yield mn (top_rest m mx kids tops)) =
     {g. trie_path tops kids g \<and> (\<exists>l. path_level m g = Some l \<and> mn \<le> l \<and> l \<le> mx)}"
proof (intro set_eqI iffI)
  fix g
  assume "g \<in> set (yield mn (top_rest m mx kids tops))"
  then obtain l where "(g, l) \<in> set (top_rest m mx kids tops)" "mn \<le> l"
    by (auto simp: yield_def)
  with top_rest_iff [OF wf pos srt subset_refl sorted_sp [OF srt], of g l mx]
  obtain c s where a: "g = c # s" "c \<in> set tops" "walk kids c s"
    "l = sp m c + wsum m c s" "l \<le> mx" by blast
  from path_level_trie [OF wf a(2,3)] a \<open>mn \<le> l\<close>
  show "g \<in> {g. trie_path tops kids g \<and> (\<exists>l. path_level m g = Some l \<and> mn \<le> l \<and> l \<le> mx)}"
    by (simp add: trie_path_def)
next
  fix g
  assume "g \<in> {g. trie_path tops kids g \<and> (\<exists>l. path_level m g = Some l \<and> mn \<le> l \<and> l \<le> mx)}"
  then obtain c s l where a: "g = c # s" "c \<in> set tops" "walk kids c s"
    "path_level m g = Some l" "mn \<le> l" "l \<le> mx"
    by (auto simp: trie_path_def split: list.splits)
  from path_level_trie [OF wf a(2,3)] a(1,4) have "l = sp m c + wsum m c s" by simp
  with a top_rest_iff [OF wf pos srt subset_refl sorted_sp [OF srt], of g l mx]
  have "(g, l) \<in> set (top_rest m mx kids tops)" by blast
  with a(5) show "g \<in> set (yield mn (top_rest m mx kids tops))"
    by (force simp: yield_def)
qed

lemma yield_distinct:
  "distinct (map fst xs) \<Longrightarrow> distinct (yield mn xs)"
  unfolding yield_def by (rule distinct_map_filter)

lemma session_init_sim:
  assumes wf: "model_chains m tops kids ls" and pos: "positive_transitions m kids ls"
    and srt: "sorted_chains m tops kids ls" and B: "mn \<le> mx"
  shows "\<exists>l. session m (MarkovIndex_init mn mx) (Suc (length (yield mn (top_rest m mx kids tops)))) =
     Some (map Some (yield mn (top_rest m mx kids tops)) @ [None], exhausted mn mx l)"
proof -
  from chains_start [OF wf] obtain s rest where tops: "tops = s # rest"
    and st: "start_letter m = Some s" by blast
  then have stop: "s \<in> set tops" by simp
  from chains_top [OF wf stop] obtain nd where nd: "markov_stats m s = Some nd"
    and pr: "probability nd = sp m s" by blast
  have sls: "s \<in> set ls" using chains_tops_ls [OF wf] stop by blast
  let ?L = "sp m s"
  have rp: "rpath tops kids [s]" using stop by simp
  have va: "vafter m mx tops kids [s] ?L = top_rest m mx kids rest"
    by (simp add: tops)
  have ng: "next_guess m (MarkovIndex_init mn mx) =
      (if mn \<le> ?L \<and> ?L \<le> mx then Some (Inr (Some [s], at mn mx [s] ?L))
       else next_guess_loop m (at mn mx [s] ?L))"
    by (simp add: next_guess_def MarkovIndex_init_def st nd pr Let_def at_def)
  let ?Y = "yield mn (vrest m mx tops kids [s] ?L)"
  from session_sim [OF wf pos B rp, of ?L] obtain l where
    ss: "session m (at mn mx [s] ?L) (Suc (length ?Y)) =
         Some (map Some ?Y @ [None], exhausted mn mx l)" by blast
  show ?thesis
  proof (cases "mn \<le> ?L \<and> ?L \<le> mx")
    case True
    then have "top_rest m mx kids tops = ([s], ?L) # vrest m mx tops kids [s] ?L"
      by (simp add: tops vrest_def Let_def)
    with True have y: "yield mn (top_rest m mx kids tops) = [s] # ?Y"
      by (simp add: yield_Cons)
    have "session m (MarkovIndex_init mn mx) (Suc (length (yield mn (top_rest m mx kids tops)))) =
       Some (map Some (yield mn (top_rest m mx kids tops)) @ [None], exhausted mn mx l)"
      unfolding y using True ss by (simp add: ng)
    then show ?thesis by blast
  next
    case False
    have y: "yield mn (top_rest m mx kids tops) = ?Y"
    proof (cases "mx < ?L")
      case True
      have "explore m mx kids [s] ?L (kids s) = []"
      proof (cases "kids s")
        case Nil
        then show ?thesis by (simp add: explore.simps)
      next
        case (Cons c cs)
        with positive_tp [OF pos sls, of c] have "0 < tp m s c" by simp
        with True Cons show ?thesis by (simp add: explore.simps Let_def)
      qed
      moreover have "top_rest m mx kids rest = []"
      proof (cases rest)
        case Nil
        then show ?thesis by simp
      next
        case (Cons c cs)
        with sorted_sp [OF srt] tops have "?L \<le> sp m c" by simp
        with True Cons show ?thesis by (simp add: Let_def)
      qed
      ultimately have "vrest m mx tops kids [s] ?L = []"
        unfolding vrest_def va by simp
      moreover from True have "top_rest m mx kids tops = []"
        by (simp add: tops Let_def)
      ultimately show ?thesis by simp
    next
      case le: False
      with False have low: "?L < mn" by simp
      from le have "top_rest m mx kids tops = ([s], ?L) # vrest m mx tops kids [s] ?L"
        by (simp add: tops vrest_def Let_def)
      with low show ?thesis
        using yield_skip [of "[([s], ?L)]" mn "vrest m mx tops kids [s] ?L"] by simp
    qed
    from ng have "next_guess m (MarkovIndex_init mn mx) = next_guess_loop m (at mn mx [s] ?L)"
      unfolding if_not_P [OF False] .
    then have "next_guess m (MarkovIndex_init mn mx) = next_guess m (at mn mx [s] ?L)"
      by (simp add: next_guess_at)
    then have "session m (MarkovIndex_init mn mx) (Suc (length ?Y)) =
        session m (at mn mx [s] ?L) (Suc (length ?Y))"
      by simp
    with ss show ?thesis unfolding y by auto
  qed
qed

section \<open>Helpers for the examples\<close>

lemma lookup_the: "\<not> Option.is_none (f x) \<Longrightarrow> f x = Some (the (f x))"
  by (cases "f x") simp_all



section \<open>The claims\<close>

subsection \<open>C1: returned guesses are inside the level band\<close>

text \<open>
  C1. In every session (any number of calls of \<^verbatim>\<open>next_guess\<close> on an index created with
  bounds \<open>mn\<close> and \<open>mx\<close>), every guess returned has a level, the probability of its first
  letter plus the probabilities of the transitions between consecutive letters, and that
  level \<open>l\<close> satisfies \<open>mn \<le> l \<le> mx\<close>, both bounds inclusive.
\<close>

theorem returned_guess_level_in_band:
  assumes "session m (MarkovIndex_init mn mx) n = Some (rets, idx)" "Some g \<in> set rets"
  shows "\<exists>l. path_level m g = Some l \<and> mn \<le> l \<and> l \<le> mx"
  using session_inv [OF assms(1) cursor_inv_init] assms(2)
  by (auto simp: path_ok_def in_range_def MarkovIndex_init_def)

text \<open>Witness: the first two calls on the scenario file with bounds 0 and 3.\<close>

theorem returned_guess_level_in_band_witness:
  "session scenario (MarkovIndex_init 0 3) 2 =
     Some ([Some [97], Some [97, 97]],
           \<lparr>min_level = 0, max_level = 3, guess = Some [97, 97], guess_level = 0\<rparr>)
   \<and> Some [97, 97] \<in> set [Some [97], Some [97, 97 :: letter]]
   \<and> (\<exists>l. path_level scenario [97, 97] = Some l \<and> 0 \<le> l \<and> l \<le> 3)"
proof -
  have h: "session scenario (MarkovIndex_init 0 3) 2 =
     Some ([Some [97], Some [97, 97]],
           \<lparr>min_level = 0, max_level = 3, guess = Some [97, 97], guess_level = 0\<rparr>)"
    by code_simp
  have h2: "Some [97, 97] \<in> set [Some [97], Some [97, 97 :: letter]]" by simp
  from returned_guess_level_in_band [OF h h2] h h2 show ?thesis by blast
qed

subsection \<open>C2: completeness of the enumeration\<close>

text \<open>
  On the unsorted file with bounds 0 and 3 the session returns \<open>a\<close> and is exhausted at
  \<open>b\<close>, of probability 5; the letter \<open>c\<close> after it, of level 1, is never returned.
\<close>

theorem completeness_counterexample:
  "session (loaded unsorted_lines) (MarkovIndex_init 0 3) 2 =
     Some ([Some [97], None],
           \<lparr>min_level = 0, max_level = 3, guess = None, guess_level = 5\<rparr>)
   \<and> start_letter (loaded unsorted_lines) = Some 97
   \<and> node_next (the (markov_stats (loaded unsorted_lines) 97)) = Some 98
   \<and> node_next (the (markov_stats (loaded unsorted_lines) 98)) = Some 99
   \<and> path_level (loaded unsorted_lines) [99] = Some 1"
  by code_simp

text \<open>
  C2, as amended. For every model with well-formed, non-empty chains in which every
  chain is in non-decreasing order of probability and every transition probability is
  positive, and for all bounds with \<open>mn \<le> mx\<close>: the calls of \<^verbatim>\<open>next_guess\<close> on a new index
  reach exhaustion after finitely many calls, the guesses returned before it are exactly
  the strings reachable through the trie whose level is between \<open>mn\<close> and \<open>mx\<close>, and no
  string is returned twice.
\<close>

theorem sorted_enumeration_complete:
  assumes "model_chains m tops kids ls" and "sorted_chains m tops kids ls"
    and "positive_transitions m kids ls" and "mn \<le> mx"
  shows "\<exists>gs idx.
     session m (MarkovIndex_init mn mx) (Suc (length gs)) = Some (map Some gs @ [None], idx)
     \<and> distinct gs
     \<and> set gs = {g. trie_path tops kids g \<and> (\<exists>l. path_level m g = Some l \<and> mn \<le> l \<and> l \<le> mx)}"
proof -
  let ?gs = "yield mn (top_rest m mx kids tops)"
  from session_init_sim [OF assms(1,3,2,4)] obtain l where
    "session m (MarkovIndex_init mn mx) (Suc (length ?gs)) =
       Some (map Some ?gs @ [None], exhausted mn mx l)" by blast
  moreover from assms(1) have "distinct tops" by (simp add: model_chains_def)
  with top_rest_distinct [OF assms(1) subset_refl] have "distinct ?gs"
    by (intro yield_distinct) simp
  moreover note yield_top_rest [OF assms(1,3,2), of mn mx]
  ultimately show ?thesis by blast
qed

text \<open>Witness: the sorted file with bounds 2 and 3, which yields five guesses.\<close>

theorem sorted_enumeration_complete_witness:
  "model_chains (loaded sorted_lines) [97, 98] sorted_kids [97, 98]
   \<and> sorted_chains (loaded sorted_lines) [97, 98] sorted_kids [97, 98]
   \<and> positive_transitions (loaded sorted_lines) sorted_kids [97, 98]
   \<and> session (loaded sorted_lines) (MarkovIndex_init 2 3) 6 =
       Some ([Some [97, 97], Some [97, 97, 97], Some [97, 98], Some [98], Some [98, 97], None],
             \<lparr>min_level = 2, max_level = 3, guess = None, guess_level = 2\<rparr>)
   \<and> (\<exists>gs idx.
         session (loaded sorted_lines) (MarkovIndex_init 2 3) (Suc (length gs)) =
           Some (map Some gs @ [None], idx)
         \<and> distinct gs
         \<and> set gs = {g. trie_path [97, 98] sorted_kids g
                        \<and> (\<exists>l. path_level (loaded sorted_lines) g = Some l \<and> 2 \<le> l \<and> l \<le> 3)})"
proof -
  have h1: "model_chains (loaded sorted_lines) [97, 98] sorted_kids [97, 98]" by code_simp
  have h2: "sorted_chains (loaded sorted_lines) [97, 98] sorted_kids [97, 98]" by code_simp
  have h3: "positive_transitions (loaded sorted_lines) sorted_kids [97, 98]" by code_simp
  have h4: "(2::int) \<le> 3" by simp
  have s: "session (loaded sorted_lines) (MarkovIndex_init 2 3) 6 =
       Some ([Some [97, 97], Some [97, 97, 97], Some [97, 98], Some [98], Some [98, 97], None],
             \<lparr>min_level = 2, max_level = 3, guess = None, guess_level = 2\<rparr>)"
    by code_simp
  from sorted_enumeration_complete [OF h1 h2 h3 h4] h1 h2 h3 s show ?thesis by blast
qed

subsection \<open>C3: what happens after exhaustion\<close>

text \<open>
  On the one-letter file with bounds 0 and 0 the second call signals exhaustion and the
  third call returns \<open>a\<close> again: exhaustion is not permanent.
\<close>

theorem exhaustion_permanent_counterexample:
  "session (loaded single_lines) (MarkovIndex_init 0 0) 3 =
     Some ([Some [97], None, Some [97]],
           \<lparr>min_level = 0, max_level = 0, guess = Some [97], guess_level = 0\<rparr>)"
  by code_simp

lemma widen_exhausted:
  "widen m idx = Inr (Return None, idx') \<Longrightarrow> guess idx' = None"
proof (induction m idx rule: widen.induct)
  case (1 m idx)
  from "1.prems" obtain g where g: "guess idx = Some g" "g \<noteq> []"
    by (subst (asm) widen.simps) (auto split: option.splits if_splits)
  show ?case
  proof (cases "length g = 1")
    case True
    with "1.prems" g show ?thesis
      by (subst (asm) widen.simps)
         (auto simp: Let_def dig_wider_base_def split: option.splits if_splits sum.splits)
  next
    case False
    from "1.prems" g False obtain nd e where
      nd: "markov_stats m (g ! (length g - 2)) = Some nd"
      and e: "following_letters nd (last g) = Some e"
      by (subst (asm) widen.simps) (auto simp: Let_def split: option.splits)
    let ?idx1 = "idx\<lparr>guess_level := guess_level idx - edge_probability e\<rparr>"
    show ?thesis
    proof (cases "edge_next e")
      case None
      with "1.prems" g False nd e have "widen m (?idx1\<lparr>guess := Some (butlast g)\<rparr>) = Inr (Return None, idx')"
        by (subst (asm) widen.simps) (simp add: Let_def)
      with "1.IH"(1) [OF g(1) g(2) refl False refl nd e refl None] show ?thesis by simp
    next
      case (Some cur)
      with "1.prems" g False nd e obtain e' where e': "following_letters nd cur = Some e'"
        by (subst (asm) widen.simps) (auto simp: Let_def split: option.splits)
      let ?lvl = "guess_level ?idx1 + edge_probability e'"
      from "1.prems" g False nd e Some e'
      have nr: "\<not> (min_level ?idx1 \<le> ?lvl \<and> ?lvl \<le> max_level ?idx1)"
        and nl: "\<not> ?lvl < max_level ?idx1"
        and w: "widen m (?idx1\<lparr>guess := Some (butlast g)\<rparr>) = Inr (Return None, idx')"
        by (subst (asm) widen.simps, simp add: Let_def split: if_splits)+
      from "1.IH"(2) [OF g(1) g(2) refl False refl nd e refl Some e' refl nr nl] w
      show ?thesis by simp
    qed
  qed
qed

lemma next_guess_loop_exhausted:
  assumes "next_guess_loop m idx = Some r"
  shows "\<forall>idx'. r = Inr (None, idx') \<longrightarrow> guess idx' = None"
  using assms
proof (induction m idx r rule: next_guess_loop.raw_induct [rotated 1, consumes 1, case_names step])
  case (step lp m idx r)
  show ?case
  proof (intro allI impI)
    fix idx' assume r: "r = Inr (None, idx')"
    from step(2) r obtain idx1 where dd: "dig_deeper m idx = Some (Inr (None, idx1))"
      by (auto split: option.splits sum.splits)
    with step(2) r obtain x idx2 where w: "widen m idx1 = Inr (x, idx2)"
      and rest: "(case x of Return rv \<Rightarrow> Some (Inr (rv, idx2)) | Break \<Rightarrow> lp m idx2) = Some r"
      by (auto split: sum.splits widen_exit.splits)
    show "guess idx' = None"
    proof (cases x)
      case (Return rv)
      with rest r have "rv = None" "idx2 = idx'" by simp_all
      with w Return show ?thesis by (simp add: widen_exhausted)
    next
      case Break
      with rest have "lp m idx2 = Some r" by simp
      from step(1) [OF this] r show ?thesis by blast
    qed
  qed
qed

text \<open>
  C3, as amended. When \<^verbatim>\<open>next_guess\<close> signals exhaustion it leaves the index with an absent
  guess, which is the state of a new index, and the next call on it is the first call on a
  new index with the same bounds: the enumeration starts again.
\<close>

theorem exhausted_index_restarts:
  assumes "next_guess m idx = Some (Inr (None, idx'))"
  shows "guess idx' = None
    \<and> next_guess m idx' = next_guess m (MarkovIndex_init (min_level idx') (max_level idx'))"
proof -
  have lp: "guess idx' = None" if "next_guess_loop m i = Some (Inr (None, idx'))" for i
    using next_guess_loop_exhausted [OF that] by blast
  have g: "guess idx' = None"
    using assms by (auto simp: next_guess_def Let_def lp split: option.splits if_splits)
  have fresh: "MarkovIndex_init (min_level idx') (max_level idx') = idx'\<lparr>guess_level := 0\<rparr>"
    using g by (simp add: MarkovIndex_init_def)
  have "next_guess m idx' = next_guess m (idx'\<lparr>guess_level := 0\<rparr>)"
    using g by (simp add: next_guess_def Let_def split: option.splits)
  with g fresh show ?thesis by simp
qed

text \<open>Witness: the one-letter file, after the guess \<open>a\<close>.\<close>

theorem exhausted_index_restarts_witness:
  "next_guess (loaded single_lines)
      \<lparr>min_level = 0, max_level = 0, guess = Some [97], guess_level = 0\<rparr> =
     Some (Inr (None, \<lparr>min_level = 0, max_level = 0, guess = None, guess_level = 0\<rparr>))
   \<and> next_guess (loaded single_lines)
        \<lparr>min_level = 0, max_level = 0, guess = None, guess_level = 0\<rparr> =
      next_guess (loaded single_lines) (MarkovIndex_init 0 0)"
proof -
  have h: "next_guess (loaded single_lines)
      \<lparr>min_level = 0, max_level = 0, guess = Some [97], guess_level = 0\<rparr> =
     Some (Inr (None, \<lparr>min_level = 0, max_level = 0, guess = None, guess_level = 0\<rparr>))"
    by code_simp
  from exhausted_index_restarts [OF h] h show ?thesis by simp
qed

subsection \<open>C4: the concrete scenario\<close>

text \<open>
  On the scenario file with bounds 0 and 3 the third guess is \<open>aaa\<close>, not \<open>ab\<close>: after
  \<open>aa\<close> the descent takes the first child of the last letter again.
\<close>

theorem scenario_counterexample:
  "session scenario (MarkovIndex_init 0 3) 3 =
     Some ([Some [97], Some [97, 97], Some [97, 97, 97]],
           \<lparr>min_level = 0, max_level = 3, guess = Some [97, 97, 97], guess_level = 0\<rparr>)"
  by code_simp

lemma scenario_step:
  assumes "0 < k"
  shows "next_guess scenario
      \<lparr>min_level = 0, max_level = 3, guess = Some (replicate k 97), guess_level = 0\<rparr> =
    Some (Inr (Some (replicate (Suc k) 97),
      \<lparr>min_level = 0, max_level = 3, guess = Some (replicate (Suc k) 97), guess_level = 0\<rparr>))"
proof -
  have "\<not> Option.is_none (markov_stats scenario 97)" by code_simp
  then obtain nd where nd: "markov_stats scenario 97 = Some nd"
    and nd_def: "nd = the (markov_stats scenario 97)"
    by (cases "markov_stats scenario 97") simp_all
  have fc: "first_child nd = Some 97" unfolding nd_def by code_simp
  have "\<not> Option.is_none (following_letters (the (markov_stats scenario 97)) 97)" by code_simp
  then obtain e where e: "following_letters nd 97 = Some e"
    and e_def: "e = the (following_letters (the (markov_stats scenario 97)) 97)"
    unfolding nd_def by (cases "following_letters (the (markov_stats scenario 97)) 97") simp_all
  have p: "edge_probability e = 0" unfolding e_def by code_simp
  have ne: "replicate k (97::nat) \<noteq> []" and la: "last (replicate k (97::nat)) = 97"
    using assms by simp_all
  have ap: "replicate k (97::nat) @ [97] = replicate (Suc k) 97"
    by (simp add: replicate_append_same)
  have dd: "dig_deeper scenario
      \<lparr>min_level = 0, max_level = 3, guess = Some (replicate k 97), guess_level = 0\<rparr> =
    Some (Inr (Some (replicate (Suc k) 97),
      \<lparr>min_level = 0, max_level = 3, guess = Some (replicate (Suc k) 97), guess_level = 0\<rparr>))"
    using assms
    by (subst dig_deeper.simps) (simp add: la nd fc e p replicate_append_same)
  show ?thesis
    by (simp add: next_guess_def) (subst next_guess_loop.simps, simp add: dd)
qed

lemma scenario_session_from:
  "0 < k \<Longrightarrow>
   session scenario
     \<lparr>min_level = 0, max_level = 3, guess = Some (replicate k 97), guess_level = 0\<rparr> n =
   Some (map (\<lambda>j. Some (replicate (Suc (k + j)) 97)) [0..<n],
     \<lparr>min_level = 0, max_level = 3, guess = Some (replicate (k + n) 97), guess_level = 0\<rparr>)"
proof (induction n arbitrary: k)
  case 0
  then show ?case by simp
next
  case (Suc n)
  from Suc.IH [of "Suc k"] have ih: "session scenario
     \<lparr>min_level = 0, max_level = 3, guess = Some (replicate (Suc k) 97), guess_level = 0\<rparr> n =
   Some (map (\<lambda>j. Some (replicate (Suc (Suc k + j)) 97)) [0..<n],
     \<lparr>min_level = 0, max_level = 3, guess = Some (replicate (Suc k + n) 97), guess_level = 0\<rparr>)"
    by simp
  show ?case
    unfolding session.simps scenario_step [OF Suc.prems] map_upt_Suc
    by (simp add: ih del: replicate.simps upt_Suc)
qed

text \<open>
  C4, as amended. For the scenario file and bounds 0 and 3, the \<open>k\<close>-th call returns the
  string of \<open>k\<close> letters \<open>a\<close> (of level 0), for every \<open>k \<ge> 1\<close>: the sequence is \<open>a\<close>,
  \<open>aa\<close>, \<open>aaa\<close> and so on; neither \<open>ab\<close> nor exhaustion is reached.
\<close>

theorem scenario_yields_only_a:
  "session scenario (MarkovIndex_init 0 3) (Suc n) =
   Some (map (\<lambda>j. Some (replicate (Suc j) 97)) [0..<Suc n],
     \<lparr>min_level = 0, max_level = 3, guess = Some (replicate (Suc n) 97), guess_level = 0\<rparr>)"
proof -
  have first: "next_guess scenario (MarkovIndex_init 0 3) =
    Some (Inr (Some (replicate 1 97),
      \<lparr>min_level = 0, max_level = 3, guess = Some (replicate 1 97), guess_level = 0\<rparr>))"
    by code_simp
  show ?thesis
    unfolding session.simps first map_upt_Suc
    using scenario_session_from [of 1 n]
    by (simp del: replicate.simps upt_Suc)
qed

subsection \<open>C5: an over-limit sibling below the top level\<close>

text \<open>
  On the siblings file with bounds 1 and 3, after \<open>ab\<close> the sibling \<open>c\<close> has level 9, and
  the session is exhausted although the next sibling \<open>d\<close> makes \<open>ad\<close> of level 2: the
  remaining siblings are dropped with the over-limit one.
\<close>

theorem sibling_pruning_counterexample:
  "session (loaded siblings_lines) (MarkovIndex_init 1 3) 2 =
     Some ([Some [97, 98], None],
           \<lparr>min_level = 1, max_level = 3, guess = None, guess_level = 9\<rparr>)
   \<and> edge_next (the (following_letters (the (markov_stats (loaded siblings_lines) 97)) 98)) = Some 99
   \<and> edge_next (the (following_letters (the (markov_stats (loaded siblings_lines) 97)) 99)) = Some 100
   \<and> path_level (loaded siblings_lines) [97, 99] = Some 9
   \<and> path_level (loaded siblings_lines) [97, 100] = Some 2"
  by code_simp

text \<open>
  C5, as amended. During widening with a path longer than one letter, when the level of
  the next sibling exceeds \<^verbatim>\<open>max_level\<close>, the last letter is removed from the path, its
  transition probability is taken off the level, and widening goes on from the parent: the
  remaining siblings at that depth are not examined.
\<close>

theorem over_limit_sibling_abandons_depth:
  assumes "guess idx = Some (q @ [prev, parent])"
    and "markov_stats m prev = Some nd"
    and "following_letters nd parent = Some e"
    and "edge_next e = Some cur"
    and "following_letters nd cur = Some e'"
    and "guess_level idx - edge_probability e + edge_probability e' > max_level idx"
  shows "widen m idx =
     widen m (idx\<lparr>guess_level := guess_level idx - edge_probability e,
                   guess := Some (q @ [prev])\<rparr>)"
  using widen_sibling [OF assms(1-5)] assms(6) by (simp add: Let_def)

text \<open>Witness: the siblings file, at the path \<open>ab\<close> with bounds 1 and 3.\<close>

theorem over_limit_sibling_abandons_depth_witness:
  "edge_next (the (following_letters (the (markov_stats (loaded siblings_lines) 97)) 98)) = Some 99
   \<and> 1 - edge_probability (the (following_letters (the (markov_stats (loaded siblings_lines) 97)) 98))
       + edge_probability (the (following_letters (the (markov_stats (loaded siblings_lines) 97)) 99)) > 3
   \<and> widen (loaded siblings_lines)
       \<lparr>min_level = 1, max_level = 3, guess = Some [97, 98], guess_level = 1\<rparr> =
     widen (loaded siblings_lines)
       \<lparr>min_level = 1, max_level = 3, guess = Some [97], guess_level = 0\<rparr>"
proof -
  let ?m = "loaded siblings_lines"
  let ?idx = "\<lparr>min_level = 1, max_level = 3, guess = Some [97, 98], guess_level = 1\<rparr>"
  let ?nd = "the (markov_stats ?m 97)"
  let ?e = "the (following_letters ?nd 98)"
  let ?e' = "the (following_letters ?nd 99)"
  have g: "guess ?idx = Some ([] @ [97, 98])" by simp
  have "\<not> Option.is_none (markov_stats ?m 97)" by code_simp
  then have nd: "markov_stats ?m 97 = Some ?nd" by (rule lookup_the)
  have "\<not> Option.is_none (following_letters ?nd 98)" by code_simp
  then have e: "following_letters ?nd 98 = Some ?e" by (rule lookup_the)
  have "\<not> Option.is_none (following_letters ?nd 99)" by code_simp
  then have e': "following_letters ?nd 99 = Some ?e'" by (rule lookup_the)
  have nx: "edge_next ?e = Some 99" by code_simp
  have p: "edge_probability ?e = 1" by code_simp
  have p': "edge_probability ?e' = 9" by code_simp
  have hi: "guess_level ?idx - edge_probability ?e + edge_probability ?e' > max_level ?idx"
    using p p' by simp
  from over_limit_sibling_abandons_depth [OF g nd e nx e' hi] nx p p' show ?thesis by simp
qed

subsection \<open>C6: the short-circuit at the top level\<close>

text \<open>
  C6. During widening with a path of one letter, if that letter has no next letter in the
  top-level chain, or the next one has a probability above \<^verbatim>\<open>max_level\<close>, then
  \<^verbatim>\<open>dig_wider_base\<close> reports no more work and no guess, the guess of the index is set to
  absent, and \<^verbatim>\<open>next_guess\<close> (when the descent from that letter yields nothing) signals
  exhaustion; no further top-level letter is looked at.
\<close>

theorem top_level_short_circuit:
  assumes "guess idx = Some [c]" "markov_stats m c = Some nd"
    and "node_next nd = None \<or>
         (\<exists>s nd'. node_next nd = Some s \<and> markov_stats m s = Some nd'
            \<and> probability nd' > max_level idx)"
  shows "\<exists>idx'. dig_wider_base m idx c = Inr (False, None, idx')
           \<and> widen m idx = Inr (Return None, idx') \<and> guess idx' = None
           \<and> (dig_deeper m idx = Some (Inr (None, idx)) \<longrightarrow>
                next_guess m idx = Some (Inr (None, idx')))"
proof -
  from assms(3) obtain idx' where d: "dig_wider_base m idx c = Inr (False, None, idx')"
    and g: "guess idx' = None"
    using assms(2) by (auto simp: dig_wider_base_def)
  from d have w: "widen m idx = Inr (Return None, idx')"
    using widen_base [OF assms(1), of m] by simp
  have "next_guess m idx = Some (Inr (None, idx'))" if "dig_deeper m idx = Some (Inr (None, idx))"
    using that w assms(1) by (simp add: next_guess_def next_guess_loop.simps)
  with d w g show ?thesis by blast
qed

text \<open>Witness: the unsorted file at the path \<open>a\<close> with bounds 0 and 3; \<open>b\<close> has probability 5.\<close>

theorem top_level_short_circuit_witness:
  "node_next (the (markov_stats (loaded unsorted_lines) 97)) = Some 98
   \<and> probability (the (markov_stats (loaded unsorted_lines) 98)) > 3
   \<and> (\<exists>idx'. dig_wider_base (loaded unsorted_lines)
          \<lparr>min_level = 0, max_level = 3, guess = Some [97], guess_level = 0\<rparr> 97 =
            Inr (False, None, idx')
        \<and> widen (loaded unsorted_lines)
            \<lparr>min_level = 0, max_level = 3, guess = Some [97], guess_level = 0\<rparr> =
            Inr (Return None, idx')
        \<and> guess idx' = None
        \<and> next_guess (loaded unsorted_lines)
            \<lparr>min_level = 0, max_level = 3, guess = Some [97], guess_level = 0\<rparr> =
            Some (Inr (None, idx')))"
proof -
  let ?m = "loaded unsorted_lines"
  let ?idx = "\<lparr>min_level = 0, max_level = 3, guess = Some [97], guess_level = 0\<rparr>"
  have g: "guess ?idx = Some [97]" by simp
  have "\<not> Option.is_none (markov_stats ?m 97)" by code_simp
  then have nd: "markov_stats ?m 97 = Some (the (markov_stats ?m 97))" by (rule lookup_the)
  have "\<not> Option.is_none (markov_stats ?m 98)" by code_simp
  then have nd': "markov_stats ?m 98 = Some (the (markov_stats ?m 98))" by (rule lookup_the)
  have nx: "node_next (the (markov_stats ?m 97)) = Some 98" by code_simp
  have pr: "probability (the (markov_stats ?m 98)) > 3" by code_simp
  have "node_next (the (markov_stats ?m 97)) = None \<or>
         (\<exists>s nd'. node_next (the (markov_stats ?m 97)) = Some s \<and> markov_stats ?m s = Some nd'
            \<and> probability nd' > 3)"
    using nx nd' pr by blast
  then have h: "node_next (the (markov_stats ?m 97)) = None \<or>
         (\<exists>s nd'. node_next (the (markov_stats ?m 97)) = Some s \<and> markov_stats ?m s = Some nd'
            \<and> probability nd' > max_level ?idx)"
    by simp
  have dd: "dig_deeper ?m ?idx = Some (Inr (None, ?idx))" by code_simp
  from top_level_short_circuit [OF g nd h] dd nx pr show ?thesis by blast
qed

subsection \<open>C7: pruning on descent\<close>

text \<open>
  C7. When the first child of the last letter would take the level above \<^verbatim>\<open>max_level\<close>,
  \<^verbatim>\<open>dig_deeper\<close> returns nothing and leaves the index as it is (the letter is not
  appended), and no string that extends the rejected prefix is returned by a later call
  or is the path of the index after a later call. This holds for every index that
  satisfies the invariant, whatever the sign of the transition probabilities below the
  rejected prefix.
\<close>

theorem rejected_descent_prunes_subtree:
  assumes "cursor_inv m idx" "guess idx = Some p"
    and "markov_stats m (last p) = Some nd" "first_child nd = Some c"
    and "following_letters nd c = Some e"
    and "guess_level idx + edge_probability e > max_level idx"
  shows "dig_deeper m idx = Some (Inr (None, idx))
    \<and> (\<forall>n rets idx'. session m idx n = Some (rets, idx') \<longrightarrow>
          (\<forall>g. Some g \<in> set rets \<longrightarrow> \<not> prefix (p @ [c]) g)
          \<and> (\<forall>q. guess idx' = Some q \<longrightarrow> \<not> prefix (p @ [c]) q))"
proof -
  from assms(1,2) have pok: "path_ok m (max_level idx) p (guess_level idx)"
    by (simp add: cursor_inv_def)
  then have p: "p \<noteq> []" by (rule path_ok_not_Nil)
  have dd: "dig_deeper m idx = Some (Inr (None, idx))"
    using assms(2-6) p by (subst dig_deeper.simps) (simp add: Let_def)
  have lv: "path_level m (p @ [c]) = Some (guess_level idx + edge_probability e)"
    using pok p assms(3,5) by (simp add: path_ok_def path_level_snoc transition_lookup)
  have len: "2 \<le> length (p @ [c])" using p by (cases p) simp_all
  have no: "\<not> prefix (p @ [c]) g" if "path_ok m (max_level idx) g l" for g l
  proof
    assume "prefix (p @ [c]) g"
    with that len obtain k where "path_level m (p @ [c]) = Some k" "k \<le> max_level idx"
      unfolding path_ok_def by blast
    with lv assms(6) show False by simp
  qed
  have "(\<forall>g. Some g \<in> set rets \<longrightarrow> \<not> prefix (p @ [c]) g)
      \<and> (\<forall>q. guess idx' = Some q \<longrightarrow> \<not> prefix (p @ [c]) q)"
    if s: "session m idx n = Some (rets, idx')" for n rets idx'
  proof -
    from session_inv [OF s assms(1)]
    have sb: "same_bounds idx idx'" and inv': "cursor_inv m idx'"
      and r: "\<forall>g. Some g \<in> set rets \<longrightarrow> (\<exists>l. path_ok m (max_level idx) g l \<and> in_range idx l)"
      by blast+
    have "\<not> prefix (p @ [c]) q" if "guess idx' = Some q" for q
      using inv' that sb no [of q "guess_level idx'"]
      by (simp add: cursor_inv_def same_bounds_def)
    with r no show ?thesis by blast
  qed
  with dd show ?thesis by blast
qed

text \<open>Witness: the siblings file with bounds 0 and 0, at the path \<open>a\<close>; \<open>ab\<close> has level 1.\<close>

theorem rejected_descent_prunes_subtree_witness:
  "first_child (the (markov_stats (loaded siblings_lines) 97)) = Some 98
   \<and> edge_probability (the (following_letters (the (markov_stats (loaded siblings_lines) 97)) 98)) = 1
   \<and> dig_deeper (loaded siblings_lines)
        \<lparr>min_level = 0, max_level = 0, guess = Some [97], guess_level = 0\<rparr> =
      Some (Inr (None, \<lparr>min_level = 0, max_level = 0, guess = Some [97], guess_level = 0\<rparr>))
   \<and> session (loaded siblings_lines)
        \<lparr>min_level = 0, max_level = 0, guess = Some [97], guess_level = 0\<rparr> 2 =
      Some ([None, Some [97]],
            \<lparr>min_level = 0, max_level = 0, guess = Some [97], guess_level = 0\<rparr>)
   \<and> \<not> prefix [97, 98] [97 :: letter]"
proof -
  let ?m = "loaded siblings_lines"
  let ?idx = "\<lparr>min_level = 0, max_level = 0, guess = Some [97], guess_level = 0\<rparr>"
  let ?nd = "the (markov_stats ?m (last [97]))"
  let ?e = "the (following_letters ?nd 98)"
  have s: "session ?m (MarkovIndex_init 0 0) 1 = Some ([Some [97]], ?idx)"
    by code_simp
  have inv: "cursor_inv ?m ?idx"
    using session_inv [OF s cursor_inv_init] by simp
  have g: "guess ?idx = Some [97]" by simp
  have "\<not> Option.is_none (markov_stats ?m (last [97]))" by code_simp
  then have nd: "markov_stats ?m (last [97]) = Some ?nd" by (rule lookup_the)
  have fc: "first_child ?nd = Some 98" by code_simp
  have "\<not> Option.is_none (following_letters ?nd 98)" by code_simp
  then have e: "following_letters ?nd 98 = Some ?e" by (rule lookup_the)
  have p: "edge_probability ?e = 1" by code_simp
  then have hi: "guess_level ?idx + edge_probability ?e > max_level ?idx" by simp
  have s2: "session ?m ?idx 2 = Some ([None, Some [97]], ?idx)" by code_simp
  from rejected_descent_prunes_subtree [OF inv g nd fc e hi] s2
  have "dig_deeper ?m ?idx = Some (Inr (None, ?idx))"
    and "\<not> prefix ([97] @ [98]) [97 :: letter]"
    by auto
  with fc p s2 show ?thesis by simp
qed

subsection \<open>C8: the level stored in the index\<close>

text \<open>
  C8. After any number of calls on a new index, if the index has a path then its stored
  level is the level of that path; and whenever a further call returns a guess, the path
  of the index is that guess and the stored level is its level.
\<close>

theorem cursor_level_is_path_level:
  assumes "session m (MarkovIndex_init mn mx) n = Some (rets, idx)"
  shows "(\<forall>p. guess idx = Some p \<longrightarrow> path_level m p = Some (guess_level idx))
    \<and> (\<forall>g idx'. next_guess m idx = Some (Inr (Some g, idx')) \<longrightarrow>
          guess idx' = Some g \<and> path_level m g = Some (guess_level idx'))"
proof -
  from session_inv [OF assms cursor_inv_init] have inv: "cursor_inv m idx" by simp
  have "guess idx' = Some g \<and> path_level m g = Some (guess_level idx')"
    if "next_guess m idx = Some (Inr (Some g, idx'))" for g idx'
    using next_guess_inv [OF that inv]
    by (auto simp: guess_post_def cursor_inv_def path_ok_def)
  with inv show ?thesis
    by (auto simp: cursor_inv_def path_ok_def)
qed

text \<open>Witness: two calls on the scenario file, then the third.\<close>

theorem cursor_level_is_path_level_witness:
  "session scenario (MarkovIndex_init 0 3) 2 =
     Some ([Some [97], Some [97, 97]],
           \<lparr>min_level = 0, max_level = 3, guess = Some [97, 97], guess_level = 0\<rparr>)
   \<and> path_level scenario [97, 97] = Some 0
   \<and> next_guess scenario
        \<lparr>min_level = 0, max_level = 3, guess = Some [97, 97], guess_level = 0\<rparr> =
      Some (Inr (Some [97, 97, 97],
        \<lparr>min_level = 0, max_level = 3, guess = Some [97, 97, 97], guess_level = 0\<rparr>))
   \<and> path_level scenario [97, 97, 97] = Some 0"
proof -
  have h: "session scenario (MarkovIndex_init 0 3) 2 =
     Some ([Some [97], Some [97, 97]],
           \<lparr>min_level = 0, max_level = 3, guess = Some [97, 97], guess_level = 0\<rparr>)"
    by code_simp
  have n: "next_guess scenario
        \<lparr>min_level = 0, max_level = 3, guess = Some [97, 97], guess_level = 0\<rparr> =
      Some (Inr (Some [97, 97, 97],
        \<lparr>min_level = 0, max_level = 3, guess = Some [97, 97, 97], guess_level = 0\<rparr>))"
    by code_simp
  from cursor_level_is_path_level [OF h] n h show ?thesis by simp
qed

subsection \<open>C9: creating a session\<close>

text \<open>
  \<^verbatim>\<open>MarkovIndex(5, 3)\<close> is created without an error, and calling \<^verbatim>\<open>next_guess\<close> with it on
  the one-letter file returns normally.
\<close>

theorem session_creation_counterexample:
  "MarkovIndex_init 5 3 = \<lparr>min_level = 5, max_level = 3, guess = None, guess_level = 0\<rparr>
   \<and> session (loaded single_lines) (MarkovIndex_init 5 3) 1 =
       Some ([None], \<lparr>min_level = 5, max_level = 3, guess = None, guess_level = 0\<rparr>)
"
  by code_simp

text \<open>
  C9, as amended. Creating an index checks nothing: for all bounds, also with the minimum
  above the maximum, it gives an index with these bounds, no guess and level 0, and it does
  not read the tables. When the tables have no letter, it is the first call of \<^verbatim>\<open>next_guess\<close>
  that fails, with a \<^verbatim>\<open>KeyError\<close>.
\<close>

theorem session_creation_unchecked:
  "MarkovIndex_init mn mx = \<lparr>min_level = mn, max_level = mx, guess = None, guess_level = 0\<rparr>
   \<and> (start_letter m = None \<longrightarrow> next_guess m (MarkovIndex_init mn mx) = Some (Inl KeyError))"
  by (simp add: MarkovIndex_init_def next_guess_def)

text \<open>Witness: the empty file, bounds 5 and 3.\<close>

theorem session_creation_unchecked_witness:
  "start_letter (loaded []) = None
   \<and> MarkovIndex_init 5 3 = \<lparr>min_level = 5, max_level = 3, guess = None, guess_level = 0\<rparr>
   \<and> next_guess (loaded []) (MarkovIndex_init 5 3) = Some (Inl KeyError)"
proof -
  have h: "start_letter (loaded []) = None" by code_simp
  from session_creation_unchecked [of 5 3 "loaded []"] h show ?thesis by blast
qed

subsection \<open>C10: a malformed line aborts the load\<close>




end
